theory Spec2Isabelle
  imports Complex_Main
begin

section \<open>k-armed Gaussian bandits (jigglypuffRL/classicalRL/karmedBandit.py)\<close>

text \<open>
  The module keeps, for every bandit and arm, a value estimate \<open>Q\<close> and a counter
  \<open>counts\<close> in two numpy arrays of floats, a running regret with its history, and the
  list of average rewards. Three policies (\<open>EpsGreedy\<close>, \<open>UCB\<close>,
  \<open>SoftmaxActionSelection\<close>) share that state and differ in how they choose an arm
  and in the order in which they bump the counter.

  Floats are modelled as mathematical reals (no rounding, no overflow). The special
  values numpy produces instead of raising (\<open>inf\<close>, \<open>-inf\<close>, \<open>nan\<close>) are kept
  where the code can produce them: the mean of an empty list, the logarithm of zero, a
  division by zero. Signed zeros are not distinguished. The value update is given a second
  time with the rounding of float64, to compare what the code computes with the exact
  arithmetic mean.
\<close>

subsection \<open>Errors and numpy's special float values\<close>

datatype error = ValueError | IndexError

fun err_bind :: "error + 'a \<Rightarrow> ('a \<Rightarrow> error + 'b) \<Rightarrow> error + 'b" where
  "err_bind (Inl e) f = Inl e"
| "err_bind (Inr x) f = f x"

datatype npfloat = Fin real | PInf | NInf | NaN

text \<open>
  Elementwise float arithmetic as numpy does it: no operation raises, a division by zero
  gives an infinity or \<open>nan\<close>, \<open>log 0\<close> is \<open>-inf\<close>, the square root of a negative
  number is \<open>nan\<close>, and \<open>nan\<close> propagates.
\<close>

fun np_add :: "npfloat \<Rightarrow> npfloat \<Rightarrow> npfloat" where
  "np_add NaN y = NaN"
| "np_add x NaN = NaN"
| "np_add (Fin a) (Fin b) = Fin (a + b)"
| "np_add PInf NInf = NaN"
| "np_add NInf PInf = NaN"
| "np_add PInf y = PInf"
| "np_add x PInf = PInf"
| "np_add NInf y = NInf"
| "np_add x NInf = NInf"

fun np_mul :: "npfloat \<Rightarrow> npfloat \<Rightarrow> npfloat" where
  "np_mul NaN y = NaN"
| "np_mul x NaN = NaN"
| "np_mul (Fin a) (Fin b) = Fin (a * b)"
| "np_mul (Fin a) PInf = (if a = 0 then NaN else if 0 < a then PInf else NInf)"
| "np_mul (Fin a) NInf = (if a = 0 then NaN else if 0 < a then NInf else PInf)"
| "np_mul PInf (Fin b) = (if b = 0 then NaN else if 0 < b then PInf else NInf)"
| "np_mul NInf (Fin b) = (if b = 0 then NaN else if 0 < b then NInf else PInf)"
| "np_mul PInf PInf = PInf"
| "np_mul NInf NInf = PInf"
| "np_mul PInf NInf = NInf"
| "np_mul NInf PInf = NInf"

fun np_div :: "npfloat \<Rightarrow> npfloat \<Rightarrow> npfloat" where
  "np_div NaN y = NaN"
| "np_div x NaN = NaN"
| "np_div (Fin a) (Fin b) =
     (if b = 0 then (if a = 0 then NaN else if 0 < a then PInf else NInf) else Fin (a / b))"
| "np_div (Fin a) y = Fin 0"
| "np_div PInf (Fin b) = (if 0 \<le> b then PInf else NInf)"
| "np_div NInf (Fin b) = (if 0 \<le> b then NInf else PInf)"
| "np_div x y = NaN"

fun np_sqrt :: "npfloat \<Rightarrow> npfloat" where
  "np_sqrt (Fin a) = (if a < 0 then NaN else Fin (sqrt a))"
| "np_sqrt PInf = PInf"
| "np_sqrt x = NaN"

fun np_exp :: "npfloat \<Rightarrow> npfloat" where
  "np_exp (Fin a) = Fin (exp a)"
| "np_exp PInf = PInf"
| "np_exp NInf = Fin 0"
| "np_exp NaN = NaN"

text \<open>\<open>np.log(t)\<close> of a non-negative Python int.\<close>

definition np_log :: "nat \<Rightarrow> npfloat" where
  "np_log t = (if t = 0 then NInf else Fin (ln (real t)))"

definition np_sum :: "npfloat list \<Rightarrow> npfloat" where
  "np_sum xs = foldl np_add (Fin 0) xs"

text \<open>
  A binary elementwise operation on two one-dimensional arrays, with numpy's
  broadcasting: equal lengths, or one of them of length 1; ValueError otherwise.
\<close>

definition np_broadcast :: "('a \<Rightarrow> 'b \<Rightarrow> 'c) \<Rightarrow> 'a list \<Rightarrow> 'b list \<Rightarrow> error + 'c list" where
  "np_broadcast f xs ys =
     (if length xs = length ys then Inr (map2 f xs ys)
      else if length xs = 1 then Inr (map (f (hd xs)) ys)
      else if length ys = 1 then Inr (map (\<lambda>x. f x (hd ys)) xs)
      else Inl ValueError)"

text \<open>
  \<open>np.argmax\<close> of a one-dimensional array, as numpy's scan: the candidate is replaced
  by every later element that is not \<open>\<le>\<close> it (so a \<open>nan\<close> is taken), and the scan stops
  at a \<open>nan\<close>. Comparisons with \<open>nan\<close> are false. ValueError on an empty array.
\<close>

fun np_le :: "npfloat \<Rightarrow> npfloat \<Rightarrow> bool" where
  "np_le NaN y = False"
| "np_le x NaN = False"
| "np_le NInf y = True"
| "np_le x PInf = True"
| "np_le (Fin a) (Fin b) = (a \<le> b)"
| "np_le x y = False"

fun argmax_scan :: "npfloat list \<Rightarrow> nat \<Rightarrow> npfloat \<Rightarrow> nat \<Rightarrow> nat" where
  "argmax_scan [] i mp best = best"
| "argmax_scan (x # xs) i mp best =
     (if mp = NaN then best
      else if \<not> np_le x mp then argmax_scan xs (Suc i) x i
      else argmax_scan xs (Suc i) mp best)"

fun np_argmax :: "npfloat list \<Rightarrow> error + nat" where
  "np_argmax [] = Inl ValueError"
| "np_argmax (x # xs) = Inr (argmax_scan xs 1 x 0)"

text \<open>\<open>np.mean\<close> of a Python list: \<open>nan\<close> (with a warning, no exception) when it is empty.\<close>

definition np_mean :: "real list \<Rightarrow> npfloat" where
  "np_mean xs = (if xs = [] then NaN else Fin (sum_list xs / real (length xs)))"

subsection \<open>The random generator\<close>

text \<open>
  Every draw of the process-wide numpy generator is supplied by an oracle, indexed by
  the number of draws taken so far (\<open>tick\<close> in the state). A theorem that holds for
  every oracle holds for every seed.
  \<^item> \<open>mean_draw b a\<close>: entry \<open>[b, a]\<close> of \<open>np.random.normal(size=(bandits, arms))\<close>;
  \<^item> \<open>normal_draw k\<close>: the standard-normal noise of draw \<open>k\<close>, so that
    \<open>np.random.normal(loc)\<close> is \<open>loc + normal_draw k\<close>;
  \<^item> \<open>random_draw k\<close>: \<open>np.random.random()\<close>, a float in \<open>[0, 1)\<close> (see \<open>rng_ok\<close>);
  \<^item> \<open>index_draw k\<close>: the raw integer behind \<open>np.random.randint\<close> and
    \<open>np.random.choice\<close>, reduced into the admissible range where it is used.
\<close>

record rng =
  mean_draw :: "nat \<Rightarrow> nat \<Rightarrow> real"
  normal_draw :: "nat \<Rightarrow> real"
  random_draw :: "nat \<Rightarrow> real"
  index_draw :: "nat \<Rightarrow> nat"

definition rng_ok :: "rng \<Rightarrow> bool" where
  "rng_ok env = (\<forall>k. 0 \<le> random_draw env k \<and> random_draw env k < 1)"

text \<open>\<open>np.random.randint(0, high)\<close>: ValueError unless \<open>0 < high\<close>.\<close>

definition np_randint :: "rng \<Rightarrow> nat \<Rightarrow> nat \<Rightarrow> error + nat" where
  "np_randint env k high = (if high = 0 then Inl ValueError else Inr (index_draw env k mod high))"

text \<open>
  \<open>np.random.choice(range(n), p=p)\<close>: ValueError when \<open>range(n)\<close> is empty, when \<open>p\<close>
  has another size, holds a \<open>nan\<close>, an infinity or a negative entry, or does not sum
  to 1 (numpy compares within a rounding tolerance; the reals compare exactly).
  Otherwise some index of positive probability is returned.
\<close>

fun is_Fin :: "npfloat \<Rightarrow> bool" where
  "is_Fin (Fin a) = True"
| "is_Fin x = False"

fun the_Fin :: "npfloat \<Rightarrow> real" where
  "the_Fin (Fin a) = a"
| "the_Fin x = 0"

definition np_choice :: "rng \<Rightarrow> nat \<Rightarrow> nat \<Rightarrow> npfloat list \<Rightarrow> error + nat" where
  "np_choice env k n p =
     (if n = 0 \<or> length p \<noteq> n then Inl ValueError
      else if \<not> list_all is_Fin p then Inl ValueError
      else if \<not> list_all (\<lambda>x. 0 \<le> the_Fin x) p \<or> sum_list (map the_Fin p) \<noteq> 1
        then Inl ValueError
      else let support = filter (\<lambda>i. 0 < the_Fin (p ! i)) [0..<n]
           in Inr (support ! (index_draw env k mod length support)))"

subsection \<open>State: class GaussianBandits\<close>

record bandit =
  nbandits :: nat
  narms :: nat
  rewards :: "real list list"
  Q :: "real list list"
  counts :: "real list list"
  regret :: real
  regrets :: "real list"
  avg_reward :: "npfloat list"
  tick :: nat

record epsgreedy = bandit +
  eps :: real

record softmax_sel = bandit +
  temp :: real

text \<open>
  \<open>GaussianBandits.__init__\<close>. \<open>np.random.normal(size=(bandits, arms))\<close> raises
  ValueError on a negative dimension and returns an empty array on a zero one; nothing
  else is checked. The last argument is the record extension of the subclass.
\<close>

definition GaussianBandits_init :: "rng \<Rightarrow> int \<Rightarrow> int \<Rightarrow> 'a \<Rightarrow> error + 'a bandit_scheme" where
  "GaussianBandits_init env bandits arms ext =
     (if bandits < 0 \<or> arms < 0 then Inl ValueError
      else Inr \<lparr> nbandits = nat bandits, narms = nat arms,
                 rewards = map (\<lambda>b. map (\<lambda>a. mean_draw env b a) [0..<nat arms]) [0..<nat bandits],
                 Q = replicate (nat bandits) (replicate (nat arms) 0),
                 counts = replicate (nat bandits) (replicate (nat arms) 0),
                 regret = 0, regrets = [0], avg_reward = [], tick = 0, \<dots> = ext \<rparr>)"

subsection \<open>Array accesses and the statements shared by the three classes\<close>

text \<open>\<open>m[b, a]\<close> (and \<open>m[b][a]\<close>) with non-negative indices: IndexError out of range.\<close>

definition mat_get :: "real list list \<Rightarrow> nat \<Rightarrow> nat \<Rightarrow> error + real" where
  "mat_get m b a = (if b < length m \<and> a < length (m ! b) then Inr (m ! b ! a) else Inl IndexError)"

definition mat_set :: "real list list \<Rightarrow> nat \<Rightarrow> nat \<Rightarrow> real \<Rightarrow> real list list" where
  "mat_set m b a v = m[b := (m ! b)[a := v]]"

text \<open>\<open>self.counts[bandit, action] += 1\<close>\<close>

definition counts_incr :: "'a bandit_scheme \<Rightarrow> nat \<Rightarrow> nat \<Rightarrow> error + 'a bandit_scheme" where
  "counts_incr s b a =
     err_bind (mat_get (counts s) b a) (\<lambda>c.
     Inr (s\<lparr>counts := mat_set (counts s) b a (c + 1)\<rparr>))"

text \<open>\<open>self.Q[bandit, action] += (reward - self.Q[bandit, action]) / (self.counts[bandit, action] + 1)\<close>\<close>

definition value_update :: "'a bandit_scheme \<Rightarrow> nat \<Rightarrow> nat \<Rightarrow> real \<Rightarrow> error + 'a bandit_scheme" where
  "value_update s b a reward =
     err_bind (mat_get (Q s) b a) (\<lambda>q.
     err_bind (mat_get (counts s) b a) (\<lambda>c.
     Inr (s\<lparr>Q := mat_set (Q s) b a (q + (reward - q) / (c + 1))\<rparr>)))"

text \<open>\<open>get_reward\<close> (the same text in the three classes): one draw from the generator.\<close>

definition get_reward :: "rng \<Rightarrow> 'a bandit_scheme \<Rightarrow> nat \<Rightarrow> nat \<Rightarrow> error + (real \<times> 'a bandit_scheme)" where
  "get_reward env s b a =
     err_bind (mat_get (rewards s) b a) (\<lambda>mu.
     Inr (mu + normal_draw env (tick s), s\<lparr>tick := Suc (tick s)\<rparr>))"

text \<open>Python's \<open>max\<close> over a row: ValueError on an empty one.\<close>

fun py_max :: "real list \<Rightarrow> error + real" where
  "py_max [] = Inl ValueError"
| "py_max (x # xs) = Inr (fold max xs x)"

text \<open>\<open>update_regret\<close> (the same text in the three classes).\<close>

definition update_regret :: "'a bandit_scheme \<Rightarrow> nat \<Rightarrow> nat \<Rightarrow> error + 'a bandit_scheme" where
  "update_regret s b a =
     (if b < length (Q s) then
        err_bind (py_max (Q s ! b)) (\<lambda>m.
        err_bind (mat_get (Q s) b a) (\<lambda>q.
        Inr (s\<lparr>regret := regret s + (m - q), regrets := regrets s @ [regret s + (m - q)]\<rparr>)))
      else Inl IndexError)"

subsection \<open>The incremental-mean rule in isolation\<close>

text \<open>
  Lines 76-79 of \<open>EpsGreedy.one_step\<close>: the value update immediately followed by the
  increment of the counter, for one reward.
\<close>

definition update_then_incr :: "'a bandit_scheme \<Rightarrow> nat \<Rightarrow> nat \<Rightarrow> real \<Rightarrow> error + 'a bandit_scheme" where
  "update_then_incr s b a reward = err_bind (value_update s b a reward) (\<lambda>s1. counts_incr s1 b a)"



subsection \<open>The same rule in float64\<close>

text \<open>
  numpy's arrays hold IEEE binary64 numbers: every arithmetic operation returns the exact
  result rounded to the nearest representable number, ties to the one with an even
  significand. \<open>pow2 e\<close> is \<open>2\<close> to the integer power \<open>e\<close>; \<open>expo n x\<close> is the binary exponent
  \<open>\<lfloor>log\<^sub>2 x\<rfloor>\<close> of a positive \<open>x\<close>, found by halving or doubling at most \<open>n\<close> times (1100
  steps cover the whole range of binary64: below it the exponent is clamped to that of the
  subnormal numbers, above it the result overflows).
\<close>

definition pow2 :: "int \<Rightarrow> real" where
  "pow2 e = (if 0 \<le> e then 2 ^ nat e else 1 / 2 ^ nat (- e))"

fun expo :: "nat \<Rightarrow> real \<Rightarrow> int" where
  "expo 0 x = 0"
| "expo (Suc n) x =
     (if 2 \<le> x then expo n (x / 2) + 1 else if x < 1 then expo n (2 * x) - 1 else 0)"









subsection \<open>The loops shared by the three classes\<close>

text \<open>
  \<open>for x in xs: ...; R.append(reward)\<close>: the body returns the reward and the new state;
  an exception in the body leaves the loop.
\<close>

fun for_each ::
  "('s \<Rightarrow> nat \<Rightarrow> error + (real \<times> 's)) \<Rightarrow> nat list \<Rightarrow> 's \<Rightarrow> real list \<Rightarrow> error + (real list \<times> 's)" where
  "for_each body [] s R = Inr (R, s)"
| "for_each body (x # xs) s R =
     err_bind (body s x) (\<lambda>(reward, s1). for_each body xs s1 (R @ [reward]))"

text \<open>
  The loop of the three \<open>learn\<close> methods:
  \<open>for i in range(n_timesteps): r = self.one_step(i); self.avg_reward.append(np.mean(r))\<close>
\<close>

fun learn_loop ::
  "('a bandit_scheme \<Rightarrow> nat \<Rightarrow> error + (real list \<times> 'a bandit_scheme)) \<Rightarrow> nat list \<Rightarrow>
   'a bandit_scheme \<Rightarrow> error + 'a bandit_scheme" where
  "learn_loop one_step [] s = Inr s"
| "learn_loop one_step (i # is) s =
     err_bind (one_step s i) (\<lambda>(r, s1).
     learn_loop one_step is (s1\<lparr>avg_reward := avg_reward s1 @ [np_mean r]\<rparr>))"

subsection \<open>class EpsGreedy\<close>

definition EpsGreedy_init :: "rng \<Rightarrow> int \<Rightarrow> int \<Rightarrow> real \<Rightarrow> error + epsgreedy" where
  "EpsGreedy_init env bandits arms e = GaussianBandits_init env bandits arms (epsgreedy.fields e)"

definition EpsGreedy_get_action ::
  "rng \<Rightarrow> 'a epsgreedy_scheme \<Rightarrow> nat \<Rightarrow> error + (nat \<times> 'a epsgreedy_scheme)" where
  "EpsGreedy_get_action env s bandit =
     (let u = random_draw env (tick s); s1 = s\<lparr>tick := Suc (tick s)\<rparr> in
      if u < eps s then
        err_bind (np_randint env (tick s1) (narms s1)) (\<lambda>action.
        Inr (action, s1\<lparr>tick := Suc (tick s1)\<rparr>))
      else if bandit < length (Q s1) then
        err_bind (np_argmax (map Fin (Q s1 ! bandit))) (\<lambda>action. Inr (action, s1))
      else Inl IndexError)"

text \<open>The body of the loop of \<open>EpsGreedy.one_step\<close>, lines 72-79.\<close>

definition EpsGreedy_decide ::
  "rng \<Rightarrow> 'a epsgreedy_scheme \<Rightarrow> nat \<Rightarrow> error + (real \<times> 'a epsgreedy_scheme)" where
  "EpsGreedy_decide env s bandit =
     err_bind (EpsGreedy_get_action env s bandit) (\<lambda>(action, s1).
     err_bind (get_reward env s1 bandit action) (\<lambda>(reward, s2).
     err_bind (update_regret s2 bandit action) (\<lambda>s3.
     err_bind (update_then_incr s3 bandit action reward) (\<lambda>s4.
     Inr (reward, s4)))))"

definition EpsGreedy_one_step ::
  "rng \<Rightarrow> 'a epsgreedy_scheme \<Rightarrow> nat \<Rightarrow> error + (real list \<times> 'a epsgreedy_scheme)" where
  "EpsGreedy_one_step env s i = for_each (EpsGreedy_decide env) [0..<nbandits s] s []"

text \<open>\<open>range(n_timesteps)\<close> is empty for a non-positive argument.\<close>

definition EpsGreedy_learn :: "rng \<Rightarrow> 'a epsgreedy_scheme \<Rightarrow> int \<Rightarrow> error + 'a epsgreedy_scheme" where
  "EpsGreedy_learn env s n_timesteps = learn_loop (EpsGreedy_one_step env) [0..<nat n_timesteps] s"

subsection \<open>The parts common to UCB and SoftmaxActionSelection\<close>

text \<open>
  The body of the inner loop of \<open>initial_run\<close> (lines 145-151 and 205-211, the same
  text): the counter is bumped first, the value update divides by the bumped counter
  plus one, and the counter is not bumped again.
\<close>

definition initial_visit ::
  "rng \<Rightarrow> nat \<Rightarrow> 'a bandit_scheme \<Rightarrow> nat \<Rightarrow> error + (real \<times> 'a bandit_scheme)" where
  "initial_visit env bandit s arm =
     err_bind (counts_incr s bandit arm) (\<lambda>s1.
     err_bind (get_reward env s1 bandit arm) (\<lambda>(reward, s2).
     err_bind (value_update s2 bandit arm reward) (\<lambda>s3.
     err_bind (update_regret s3 bandit arm) (\<lambda>s4.
     Inr (reward, s4)))))"

fun initial_run_loop :: "rng \<Rightarrow> nat list \<Rightarrow> 'a bandit_scheme \<Rightarrow> error + 'a bandit_scheme" where
  "initial_run_loop env [] s = Inr s"
| "initial_run_loop env (bandit # bs) s =
     err_bind (for_each (initial_visit env bandit) [0..<narms s] s []) (\<lambda>(bandit_reward, s1).
     initial_run_loop env bs (s1\<lparr>avg_reward := avg_reward s1 @ [np_mean bandit_reward]\<rparr>))"

definition initial_run :: "rng \<Rightarrow> 'a bandit_scheme \<Rightarrow> error + 'a bandit_scheme" where
  "initial_run env s = initial_run_loop env [0..<nbandits s] s"

text \<open>
  The body of the loop of \<open>one_step\<close> after the action is chosen (lines 117-124 and
  178-185, the same text): the counter is bumped before the reward is drawn and again
  after the value update.
\<close>

definition apply_action ::
  "rng \<Rightarrow> 'a bandit_scheme \<Rightarrow> nat \<Rightarrow> nat \<Rightarrow> error + (real \<times> 'a bandit_scheme)" where
  "apply_action env s bandit action =
     err_bind (counts_incr s bandit action) (\<lambda>s1.
     err_bind (get_reward env s1 bandit action) (\<lambda>(reward, s2).
     err_bind (update_then_incr s2 bandit action reward) (\<lambda>s3.
     err_bind (update_regret s3 bandit action) (\<lambda>s4.
     Inr (reward, s4)))))"

subsection \<open>class UCB\<close>

definition UCB_init :: "rng \<Rightarrow> int \<Rightarrow> int \<Rightarrow> error + bandit" where
  "UCB_init env bandits arms = GaussianBandits_init env bandits arms ()"

text \<open>The confidence term \<open>np.sqrt(2 * np.log(t) / c)\<close> for one entry \<open>c\<close> of the counts.\<close>

definition UCB_bonus :: "nat \<Rightarrow> real \<Rightarrow> npfloat" where
  "UCB_bonus t c = np_sqrt (np_div (np_mul (Fin 2) (np_log t)) (Fin c))"

definition UCB_scores :: "'a bandit_scheme \<Rightarrow> nat \<Rightarrow> nat \<Rightarrow> error + npfloat list" where
  "UCB_scores s t bandit =
     (if bandit < length (Q s) \<and> bandit < length (counts s) then
        np_broadcast (\<lambda>q c. np_add (Fin q) (UCB_bonus t c)) (Q s ! bandit) (counts s ! bandit)
      else Inl IndexError)"

definition UCB_get_action :: "'a bandit_scheme \<Rightarrow> nat \<Rightarrow> nat \<Rightarrow> error + nat" where
  "UCB_get_action s t bandit = err_bind (UCB_scores s t bandit) np_argmax"

definition UCB_decide :: "rng \<Rightarrow> nat \<Rightarrow> 'a bandit_scheme \<Rightarrow> nat \<Rightarrow> error + (real \<times> 'a bandit_scheme)" where
  "UCB_decide env i s bandit =
     err_bind (UCB_get_action s i bandit) (\<lambda>action. apply_action env s bandit action)"

definition UCB_one_step ::
  "rng \<Rightarrow> 'a bandit_scheme \<Rightarrow> nat \<Rightarrow> error + (real list \<times> 'a bandit_scheme)" where
  "UCB_one_step env s i = for_each (UCB_decide env i) [0..<nbandits s] s []"

definition UCB_learn :: "rng \<Rightarrow> 'a bandit_scheme \<Rightarrow> int \<Rightarrow> error + 'a bandit_scheme" where
  "UCB_learn env s n_timesteps =
     err_bind (initial_run env s) (\<lambda>s1. learn_loop (UCB_one_step env) [0..<nat n_timesteps] s1)"

subsection \<open>class SoftmaxActionSelection\<close>

definition Softmax_init :: "rng \<Rightarrow> int \<Rightarrow> int \<Rightarrow> real \<Rightarrow> error + softmax_sel" where
  "Softmax_init env bandits arms t = GaussianBandits_init env bandits arms (softmax_sel.fields t)"

definition softmax :: "'a softmax_sel_scheme \<Rightarrow> real list \<Rightarrow> npfloat list" where
  "softmax s x =
     (let ex = map (\<lambda>v. np_exp (np_div (Fin v) (Fin (temp s)))) x;
          total = np_sum ex
      in map (\<lambda>e. np_div e total) ex)"

definition Softmax_get_action ::
  "rng \<Rightarrow> 'a softmax_sel_scheme \<Rightarrow> nat \<Rightarrow> error + (nat \<times> 'a softmax_sel_scheme)" where
  "Softmax_get_action env s bandit =
     (if bandit < length (Q s) then
        err_bind (np_choice env (tick s) (narms s) (softmax s (Q s ! bandit))) (\<lambda>action.
        Inr (action, s\<lparr>tick := Suc (tick s)\<rparr>))
      else Inl IndexError)"

definition Softmax_decide ::
  "rng \<Rightarrow> 'a softmax_sel_scheme \<Rightarrow> nat \<Rightarrow> error + (real \<times> 'a softmax_sel_scheme)" where
  "Softmax_decide env s bandit =
     err_bind (Softmax_get_action env s bandit) (\<lambda>(action, s1). apply_action env s1 bandit action)"

definition Softmax_one_step ::
  "rng \<Rightarrow> 'a softmax_sel_scheme \<Rightarrow> nat \<Rightarrow> error + (real list \<times> 'a softmax_sel_scheme)" where
  "Softmax_one_step env s i = for_each (Softmax_decide env) [0..<nbandits s] s []"

definition Softmax_learn :: "rng \<Rightarrow> 'a softmax_sel_scheme \<Rightarrow> int \<Rightarrow> error + 'a softmax_sel_scheme" where
  "Softmax_learn env s n_timesteps =
     err_bind (initial_run env s) (\<lambda>s1. learn_loop (Softmax_one_step env) [0..<nat n_timesteps] s1)"

subsection \<open>Shape of the state\<close>

text \<open>
  The three arrays have \<open>nbandits\<close> rows of \<open>narms\<close> entries. The constructor
  establishes this and no statement of the module changes a shape.
\<close>

definition wf :: "'a bandit_scheme \<Rightarrow> bool" where
  "wf s = (length (Q s) = nbandits s \<and> length (counts s) = nbandits s \<and>
           length (rewards s) = nbandits s \<and>
           list_all (\<lambda>row. length row = narms s) (Q s) \<and>
           list_all (\<lambda>row. length row = narms s) (counts s) \<and>
           list_all (\<lambda>row. length row = narms s) (rewards s))"

subsection \<open>Construct, then learn\<close>

text \<open>The way the module's own \<open>__main__\<close> block uses each class.\<close>

definition EpsGreedy_run :: "rng \<Rightarrow> int \<Rightarrow> int \<Rightarrow> real \<Rightarrow> int \<Rightarrow> error + epsgreedy" where
  "EpsGreedy_run env bandits arms e n =
     err_bind (EpsGreedy_init env bandits arms e) (\<lambda>s. EpsGreedy_learn env s n)"

definition UCB_run :: "rng \<Rightarrow> int \<Rightarrow> int \<Rightarrow> int \<Rightarrow> error + bandit" where
  "UCB_run env bandits arms n = err_bind (UCB_init env bandits arms) (\<lambda>s. UCB_learn env s n)"

definition Softmax_run :: "rng \<Rightarrow> int \<Rightarrow> int \<Rightarrow> real \<Rightarrow> int \<Rightarrow> error + softmax_sel" where
  "Softmax_run env bandits arms t n =
     err_bind (Softmax_init env bandits arms t) (\<lambda>s. Softmax_learn env s n)"

subsection \<open>First index of the maximum\<close>

text \<open>
  The documented result of \<open>argmax\<close> on a row without special values: an index of a
  maximal entry such that every earlier entry is strictly smaller.
\<close>

definition first_argmax :: "real list \<Rightarrow> nat \<Rightarrow> bool" where
  "first_argmax xs a \<longleftrightarrow>
     a < length xs \<and> list_all (\<lambda>x. x \<le> xs ! a) xs \<and> list_all (\<lambda>x. x < xs ! a) (take a xs)"

subsection \<open>The effect of one decision\<close>

text \<open>
  \<open>bumped k d s b a r s'\<close>: \<open>s'\<close> is \<open>s\<close> after one decision for arm \<open>a\<close> of bandit \<open>b\<close>
  with reward \<open>r\<close>, where the counter has advanced by \<open>k\<close>, the value update has
  divided by the old counter plus \<open>d\<close>, and one regret has been recorded.
\<close>

definition bumped ::
  "real \<Rightarrow> real \<Rightarrow> 'a bandit_scheme \<Rightarrow> nat \<Rightarrow> nat \<Rightarrow> real \<Rightarrow> 'a bandit_scheme \<Rightarrow> bool" where
  "bumped k d s b a r s' \<longleftrightarrow>
     wf s' \<and> nbandits s' = nbandits s \<and> narms s' = narms s \<and> rewards s' = rewards s \<and>
     avg_reward s' = avg_reward s \<and> bandit.more s' = bandit.more s \<and>
     counts s' = mat_set (counts s) b a (counts s ! b ! a + k) \<and>
     Q s' = mat_set (Q s) b a (Q s ! b ! a + (r - Q s ! b ! a) / (counts s ! b ! a + d)) \<and>
     regrets s' = regrets s @ [regret s'] \<and> regret s \<le> regret s'"

subsection \<open>Quantities the properties are about\<close>

text \<open>The sum of \<open>counts[b, a]\<close> across all arms \<open>a\<close> of bandit \<open>b\<close>.\<close>

definition row_sum :: "'a bandit_scheme \<Rightarrow> nat \<Rightarrow> real" where
  "row_sum s b = sum_list (counts s ! b)"

text \<open>
  The regret history is non-decreasing and non-negative, and the running regret is
  non-negative and bounds every entry of the history.
\<close>

definition regret_inv :: "'a bandit_scheme \<Rightarrow> bool" where
  "regret_inv s \<longleftrightarrow>
     sorted (regrets s) \<and> 0 \<le> regret s \<and> list_all (\<lambda>x. 0 \<le> x \<and> x \<le> regret s) (regrets s)"

text \<open>
  \<open>progressed k bs s s'\<close>: \<open>s'\<close> is reached from \<open>s\<close> by decisions taken, in this order,
  for the bandits \<open>bs\<close>, each of which advanced a counter of its bandit by \<open>k\<close> and
  recorded one regret.
\<close>

definition progressed :: "real \<Rightarrow> nat list \<Rightarrow> 'a bandit_scheme \<Rightarrow> 'a bandit_scheme \<Rightarrow> bool" where
  "progressed k bs s s' \<longleftrightarrow>
     wf s' \<and> nbandits s' = nbandits s \<and> narms s' = narms s \<and> rewards s' = rewards s \<and>
     bandit.more s' = bandit.more s \<and>
     list_all (\<lambda>b. row_sum s' b = row_sum s b + k * real (count_list bs b)) [0..<nbandits s] \<and>
     length (regrets s') = length (regrets s) + length bs \<and>
     (regret_inv s \<longrightarrow> regret_inv s')"

subsection \<open>The rewards behind the average-reward trajectory\<close>

text \<open>
  \<open>learn_rewards one_step is s\<close>: the lists \<open>R_step\<close> returned by the successive calls of
  \<open>one_step\<close> that the main loop makes from state \<open>s\<close> (one list per timestep, holding the
  rewards drawn in that timestep), up to the first call that raises.
\<close>

fun learn_rewards ::
  "('a bandit_scheme \<Rightarrow> nat \<Rightarrow> error + (real list \<times> 'a bandit_scheme)) \<Rightarrow> nat list \<Rightarrow>
   'a bandit_scheme \<Rightarrow> real list list" where
  "learn_rewards one_step [] s = []"
| "learn_rewards one_step (i # is) s =
     (case one_step s i of
        Inl e \<Rightarrow> []
      | Inr (r, s1) \<Rightarrow>
          r # learn_rewards one_step is (s1\<lparr>avg_reward := avg_reward s1 @ [np_mean r]\<rparr>))"

text \<open>
  \<open>initial_rewards env bs s\<close>: the lists \<open>bandit_reward\<close> that \<open>initial_run\<close> builds from
  state \<open>s\<close> (one list per bandit, holding the rewards of its arms).
\<close>

fun initial_rewards :: "rng \<Rightarrow> nat list \<Rightarrow> 'a bandit_scheme \<Rightarrow> real list list" where
  "initial_rewards env [] s = []"
| "initial_rewards env (bandit # bs) s =
     (case for_each (initial_visit env bandit) [0..<narms s] s [] of
        Inl e \<Rightarrow> []
      | Inr (bandit_reward, s1) \<Rightarrow>
          bandit_reward #
          initial_rewards env bs (s1\<lparr>avg_reward := avg_reward s1 @ [np_mean bandit_reward]\<rparr>))"

subsection \<open>A concrete generator and concrete states\<close>

text \<open>
  A generator whose true means are all 0, whose noise is always 1 (so every reward is 1),
  whose uniform draws are 0 and whose integer draws are 0.
\<close>

definition demo_rng :: rng where
  "demo_rng = \<lparr> mean_draw = (\<lambda>b a. 0), normal_draw = (\<lambda>k. 1), random_draw = (\<lambda>k. 0),
                index_draw = (\<lambda>k. 0) \<rparr>"

text \<open>The states right after \<open>UCB(1, 1)\<close> and \<open>UCB(1, 2)\<close> under \<open>demo_rng\<close>.\<close>

definition fresh_1x1 :: bandit where
  "fresh_1x1 = \<lparr> nbandits = 1, narms = 1, rewards = [[0]], Q = [[0]], counts = [[0]],
                 regret = 0, regrets = [0], avg_reward = [], tick = 0 \<rparr>"



text \<open>The same generator with every noise draw equal to -1 (every reward is -1).\<close>

definition sour_rng :: rng where
  "sour_rng = \<lparr> mean_draw = (\<lambda>b a. 0), normal_draw = (\<lambda>k. - 1), random_draw = (\<lambda>k. 0),
                index_draw = (\<lambda>k. 0) \<rparr>"

text \<open>The states reached by small runs under \<open>demo_rng\<close>.\<close>

definition eps_1x2_after_2 :: epsgreedy where
  "eps_1x2_after_2 = \<lparr> nbandits = 1, narms = 2, rewards = [[0, 0]], Q = [[1, 0]], counts = [[2, 0]],
       regret = 0, regrets = [0, 0, 0], avg_reward = [Fin 1, Fin 1], tick = 4, eps = 0 \<rparr>"

definition ucb_1x1_after_0 :: bandit where
  "ucb_1x1_after_0 = \<lparr> nbandits = 1, narms = 1, rewards = [[0]], Q = [[1 / 2]], counts = [[1]],
       regret = 0, regrets = [0, 0], avg_reward = [Fin 1], tick = 1 \<rparr>"

definition ucb_1x1_after_1 :: bandit where
  "ucb_1x1_after_1 = \<lparr> nbandits = 1, narms = 1, rewards = [[0]], Q = [[2 / 3]], counts = [[3]],
       regret = 0, regrets = [0, 0, 0], avg_reward = [Fin 1, Fin 1], tick = 2 \<rparr>"

definition ucb_2x1_after_1 :: bandit where
  "ucb_2x1_after_1 = \<lparr> nbandits = 2, narms = 1, rewards = [[0], [0]], Q = [[2 / 3], [2 / 3]],
       counts = [[3], [3]], regret = 0, regrets = [0, 0, 0, 0, 0],
       avg_reward = [Fin 1, Fin 1, Fin 1], tick = 4 \<rparr>"

definition ucb_1x3_after_0 :: bandit where
  "ucb_1x3_after_0 = \<lparr> nbandits = 1, narms = 3, rewards = [[0, 0, 0]], Q = [[1 / 2, 1 / 2, 1 / 2]],
       counts = [[1, 1, 1]], regret = 0, regrets = [0, 0, 0, 0], avg_reward = [Fin 1], tick = 3 \<rparr>"


definition softmax_fresh_1x1 :: softmax_sel where
  "softmax_fresh_1x1 = \<lparr> nbandits = 1, narms = 1, rewards = [[0]], Q = [[0]], counts = [[0]],
       regret = 0, regrets = [0], avg_reward = [], tick = 0, temp = 1 \<rparr>"

definition softmax_1x1_after_0 :: softmax_sel where
  "softmax_1x1_after_0 = \<lparr> nbandits = 1, narms = 1, rewards = [[0]], Q = [[1 / 2]], counts = [[1]],
       regret = 0, regrets = [0, 0], avg_reward = [Fin 1], tick = 1, temp = 1 \<rparr>"


text \<open>The states reached by \<open>EpsGreedy(1, 2, 1).learn(2)\<close>, \<open>UCB(1, 2).learn(1)\<close> and
  \<open>SoftmaxActionSelection(1, 2, 1).learn(1)\<close> under \<open>sour_rng\<close>.\<close>

definition eps_sour :: epsgreedy where
  "eps_sour = \<lparr> nbandits = 1, narms = 2, rewards = [[0, 0]], Q = [[- 1, 0]], counts = [[2, 0]],
       regret = 1, regrets = [0, 0, 1], avg_reward = [Fin (- 1), Fin (- 1)], tick = 6, eps = 1 \<rparr>"

definition ucb_sour :: bandit where
  "ucb_sour = \<lparr> nbandits = 1, narms = 2, rewards = [[0, 0]], Q = [[- (2 / 3), - (1 / 2)]],
       counts = [[3, 1]], regret = 2 / 3, regrets = [0, 1 / 2, 1 / 2, 2 / 3],
       avg_reward = [Fin (- 1), Fin (- 1)], tick = 3 \<rparr>"

definition softmax_sour :: softmax_sel where
  "softmax_sour = \<lparr> nbandits = 1, narms = 2, rewards = [[0, 0]], Q = [[- (2 / 3), - (1 / 2)]],
       counts = [[3, 1]], regret = 2 / 3, regrets = [0, 1 / 2, 1 / 2, 2 / 3],
       avg_reward = [Fin (- 1), Fin (- 1)], tick = 4, temp = 1 \<rparr>"

section \<open>Verification\<close>

subsection \<open>Helper lemmas: array accesses\<close>

lemma err_bind_Inr_iff:
  "err_bind m f = Inr y \<longleftrightarrow> (\<exists>x. m = Inr x \<and> f x = Inr y)"
  by (cases m) simp_all

lemma wf_lengths:
  "wf s \<Longrightarrow> length (Q s) = nbandits s \<and> length (counts s) = nbandits s \<and> length (rewards s) = nbandits s"
  by (simp add: wf_def)

lemma wf_rows:
  "wf s \<Longrightarrow> b < nbandits s \<Longrightarrow>
   length (Q s ! b) = narms s \<and> length (counts s ! b) = narms s \<and> length (rewards s ! b) = narms s"
  by (simp add: wf_def list_all_length)

lemma mat_get_ok: "b < length m \<Longrightarrow> a < length (m ! b) \<Longrightarrow> mat_get m b a = Inr (m ! b ! a)"
  by (simp add: mat_get_def)

lemma length_mat_set [simp]: "length (mat_set m b a v) = length m"
  by (simp add: mat_set_def)

lemma length_mat_set_row [simp]: "length (mat_set m b a v ! b') = length (m ! b')"
  by (cases "b < length m"; cases "b' = b") (simp_all add: mat_set_def list_update_beyond)

lemma mat_set_nth:
  "b < length m \<Longrightarrow> a < length (m ! b) \<Longrightarrow>
   mat_set m b a v ! b' ! a' = (if b' = b \<and> a' = a then v else m ! b' ! a')"
  by (cases "b' = b"; cases "a' = a") (simp_all add: mat_set_def)

lemma mat_set_row_other: "b' \<noteq> b \<Longrightarrow> mat_set m b a v ! b' = m ! b'"
  by (simp add: mat_set_def)

lemma mat_set_row_same: "b < length m \<Longrightarrow> mat_set m b a v ! b = (m ! b)[a := v]"
  by (simp add: mat_set_def)

lemma mat_set_twice [simp]: "mat_set (mat_set m b a v) b a w = mat_set m b a w"
  by (cases "b < length m") (simp_all add: mat_set_def list_update_beyond)

lemma list_all_mat_set:
  "list_all (\<lambda>row. length row = n) m \<Longrightarrow> list_all (\<lambda>row. length row = n) (mat_set m b a v)"
  by (simp add: list_all_length)

lemma wf_counts_upd [simp]: "wf (s\<lparr>counts := mat_set (counts s) b a v\<rparr>) = wf s"
  by (auto simp add: wf_def list_all_length)

lemma wf_Q_upd [simp]: "wf (s\<lparr>Q := mat_set (Q s) b a v\<rparr>) = wf s"
  by (auto simp add: wf_def list_all_length)

lemma wf_other_upd [simp]:
  "wf (s\<lparr>tick := t\<rparr>) = wf s" "wf (s\<lparr>regret := r\<rparr>) = wf s"
  "wf (s\<lparr>regrets := rs\<rparr>) = wf s" "wf (s\<lparr>avg_reward := av\<rparr>) = wf s"
  by (simp_all add: wf_def)

lemma py_max_ok: "xs \<noteq> [] \<Longrightarrow> py_max xs = Inr (Max (set xs))"
  by (cases xs) (simp_all add: Max.set_eq_fold[symmetric] del: set_simps)

subsection \<open>What the shared statements do on a well-shaped state\<close>

lemma counts_incr_ok:
  "wf s \<Longrightarrow> b < nbandits s \<Longrightarrow> a < narms s \<Longrightarrow>
   counts_incr s b a = Inr (s\<lparr>counts := mat_set (counts s) b a (counts s ! b ! a + 1)\<rparr>)"
  by (simp add: counts_incr_def wf_lengths wf_rows mat_get_ok)

lemma value_update_ok:
  "wf s \<Longrightarrow> b < nbandits s \<Longrightarrow> a < narms s \<Longrightarrow>
   value_update s b a r = Inr (s\<lparr>Q := mat_set (Q s) b a
       (Q s ! b ! a + (r - Q s ! b ! a) / (counts s ! b ! a + 1))\<rparr>)"
  by (simp add: value_update_def wf_lengths wf_rows mat_get_ok)

lemma get_reward_ok:
  "wf s \<Longrightarrow> b < nbandits s \<Longrightarrow> a < narms s \<Longrightarrow>
   get_reward env s b a = Inr (rewards s ! b ! a + normal_draw env (tick s), s\<lparr>tick := Suc (tick s)\<rparr>)"
  by (simp add: get_reward_def wf_lengths wf_rows mat_get_ok)

lemma update_regret_ok:
  assumes "wf s" "b < nbandits s" "a < narms s"
  shows "update_regret s b a = Inr (s\<lparr>regret := regret s + (Max (set (Q s ! b)) - Q s ! b ! a),
       regrets := regrets s @ [regret s + (Max (set (Q s ! b)) - Q s ! b ! a)]\<rparr>)"
proof -
  have "length (Q s ! b) = narms s" "length (Q s) = nbandits s"
    using assms by (simp_all add: wf_lengths wf_rows)
  with assms have "Q s ! b \<noteq> []" "b < length (Q s)" "a < length (Q s ! b)" by auto
  then show ?thesis by (simp add: update_regret_def mat_get_ok py_max_ok)
qed

lemma update_then_incr_ok:
  "wf s \<Longrightarrow> b < nbandits s \<Longrightarrow> a < narms s \<Longrightarrow>
   update_then_incr s b a r = Inr (s\<lparr>Q := mat_set (Q s) b a
       (Q s ! b ! a + (r - Q s ! b ! a) / (counts s ! b ! a + 1)),
       counts := mat_set (counts s) b a (counts s ! b ! a + 1)\<rparr>)"
  by (simp add: update_then_incr_def value_update_ok counts_incr_ok)


lemma Max_nth_ge: "a < length xs \<Longrightarrow> xs ! a \<le> Max (set xs)"
  by simp

lemma Max_update_ge: "a < length xs \<Longrightarrow> (v::real) \<le> Max (set (xs[a := v]))"
  using Max_nth_ge[of a "xs[a := v]"] by simp

lemma initial_visit_ok:
  assumes "wf s" "b < nbandits s" "a < narms s"
  shows "\<exists>s'. initial_visit env b s a = Inr (rewards s ! b ! a + normal_draw env (tick s), s') \<and>
           tick s' = Suc (tick s) \<and>
           bumped 1 2 s b a (rewards s ! b ! a + normal_draw env (tick s)) s'"
proof -
  have l: "b < length (Q s)" "a < length (Q s ! b)" "b < length (counts s)" "a < length (counts s ! b)"
    using assms by (simp_all add: wf_lengths wf_rows)
  show ?thesis
    using assms l
    by (simp add: initial_visit_def counts_incr_ok get_reward_ok value_update_ok update_regret_ok
        mat_set_nth mat_set_row_same bumped_def wf_def list_all_mat_set Max_update_ge add.commute)
qed

lemma apply_action_ok:
  assumes "wf s" "b < nbandits s" "a < narms s"
  shows "\<exists>s'. apply_action env s b a = Inr (rewards s ! b ! a + normal_draw env (tick s), s') \<and>
           tick s' = Suc (tick s) \<and>
           bumped 2 2 s b a (rewards s ! b ! a + normal_draw env (tick s)) s'"
proof -
  have l: "b < length (Q s)" "a < length (Q s ! b)" "b < length (counts s)" "a < length (counts s ! b)"
    using assms by (simp_all add: wf_lengths wf_rows)
  show ?thesis
    using assms l
    by (simp add: apply_action_def counts_incr_ok get_reward_ok update_then_incr_ok update_regret_ok
        mat_set_nth mat_set_row_same bumped_def wf_def list_all_mat_set Max_update_ge add.commute)
qed

text \<open>EpsGreedy: the regret is recorded before the value update.\<close>

lemma EpsGreedy_body_ok:
  assumes "wf s" "b < nbandits s" "a < narms s"
  shows "\<exists>s'. err_bind (get_reward env s b a) (\<lambda>(reward, s2).
     err_bind (update_regret s2 b a) (\<lambda>s3.
     err_bind (update_then_incr s3 b a reward) (\<lambda>s4.
     Inr (reward, s4)))) = Inr (rewards s ! b ! a + normal_draw env (tick s), s') \<and>
           tick s' = Suc (tick s) \<and>
           bumped 1 1 s b a (rewards s ! b ! a + normal_draw env (tick s)) s'"
proof -
  have l: "b < length (Q s)" "a < length (Q s ! b)" "b < length (counts s)" "a < length (counts s ! b)"
    using assms by (simp_all add: wf_lengths wf_rows)
  show ?thesis
    using assms l
    by (simp add: get_reward_ok update_then_incr_ok update_regret_ok
        mat_set_nth mat_set_row_same bumped_def wf_def list_all_mat_set Max_nth_ge add.commute)
qed

subsection \<open>Helper lemmas: loops\<close>

lemma for_each_append:
  "for_each body (xs @ ys) s R =
   err_bind (for_each body xs s R) (\<lambda>(R1, s1). for_each body ys s1 R1)"
proof (induction xs arbitrary: s R)
  case Nil
  then show ?case by simp
next
  case (Cons x xs)
  show ?case
  proof (cases "body s x")
    case (Inl e)
    then show ?thesis by simp
  next
    case (Inr p)
    then show ?thesis using Cons.IH by (cases p) simp
  qed
qed

lemma for_each_snoc_Inr:
  assumes "for_each body (xs @ [x]) s R = Inr (R', s')"
  shows "\<exists>R1 s1 r. for_each body xs s R = Inr (R1, s1) \<and> body s1 x = Inr (r, s') \<and> R' = R1 @ [r]"
proof -
  from assms obtain p where p: "for_each body xs s R = Inr p"
    and q: "(case p of (R1, s1) \<Rightarrow> for_each body [x] s1 R1) = Inr (R', s')"
    by (auto simp add: for_each_append err_bind_Inr_iff)
  obtain R1 s1 where [simp]: "p = (R1, s1)" by (cases p)
  from q obtain y where "body s1 x = Inr y" "(case y of (reward, s2) \<Rightarrow> Inr (R1 @ [reward], s2)) = Inr (R', s')"
    by (auto simp add: err_bind_Inr_iff)
  then show ?thesis using p by (cases y) auto
qed

lemma for_each_rule:
  assumes "for_each body xs s R = Inr (R', s')"
    and "I [] s R"
    and "\<And>ys x s1 R1 r s2. I ys s1 R1 \<Longrightarrow> x \<in> set xs \<Longrightarrow> body s1 x = Inr (r, s2)
            \<Longrightarrow> I (ys @ [x]) s2 (R1 @ [r])"
  shows "I xs s' R'"
  using assms
proof (induction xs arbitrary: R' s' rule: rev_induct)
  case Nil
  then show ?case by simp
next
  case (snoc x xs)
  from for_each_snoc_Inr[OF snoc.prems(1)] obtain R1 s1 r where
    a: "for_each body xs s R = Inr (R1, s1)" and b: "body s1 x = Inr (r, s')" and c: "R' = R1 @ [r]"
    by blast
  have "I xs s1 R1"
    by (rule snoc.IH[OF a snoc.prems(2)]) (rule snoc.prems(3), simp_all)
  then show ?case using b c snoc.prems(3) by simp
qed

lemma for_each_total:
  assumes "I [] s R"
    and "\<And>ys x s1 R1. I ys s1 R1 \<Longrightarrow> x \<in> set xs \<Longrightarrow>
            \<exists>r s2. body s1 x = Inr (r, s2) \<and> I (ys @ [x]) s2 (R1 @ [r])"
  shows "\<exists>R' s'. for_each body xs s R = Inr (R', s') \<and> I xs s' R'"
  using assms
proof (induction xs rule: rev_induct)
  case Nil
  then show ?case by simp
next
  case (snoc x xs)
  have "\<exists>R1 s1. for_each body xs s R = Inr (R1, s1) \<and> I xs s1 R1"
    by (rule snoc.IH[OF snoc.prems(1)]) (rule snoc.prems(2), simp_all)
  then obtain R1 s1 where a: "for_each body xs s R = Inr (R1, s1)" and i: "I xs s1 R1" by blast
  from snoc.prems(2)[OF i, of x] obtain r s2 where "body s1 x = Inr (r, s2)" "I (xs @ [x]) s2 (R1 @ [r])"
    by auto
  then show ?case using a by (simp add: for_each_append)
qed

lemma learn_loop_append:
  "learn_loop one_step (xs @ ys) s = err_bind (learn_loop one_step xs s) (learn_loop one_step ys)"
proof (induction xs arbitrary: s)
  case Nil
  then show ?case by simp
next
  case (Cons x xs)
  show ?case
  proof (cases "one_step s x")
    case (Inl e)
    then show ?thesis by simp
  next
    case (Inr p)
    then show ?thesis using Cons.IH by (cases p) simp
  qed
qed

lemma learn_loop_snoc_Inr:
  assumes "learn_loop one_step (xs @ [i]) s = Inr s'"
  shows "\<exists>s1 r s2. learn_loop one_step xs s = Inr s1 \<and> one_step s1 i = Inr (r, s2) \<and>
           s' = s2\<lparr>avg_reward := avg_reward s2 @ [np_mean r]\<rparr>"
proof -
  from assms obtain s1 where p: "learn_loop one_step xs s = Inr s1"
    and q: "learn_loop one_step [i] s1 = Inr s'"
    by (auto simp add: learn_loop_append err_bind_Inr_iff)
  from q obtain y where "one_step s1 i = Inr y"
    "(case y of (r, s2) \<Rightarrow> Inr (s2\<lparr>avg_reward := avg_reward s2 @ [np_mean r]\<rparr>)) = Inr s'"
    by (auto simp add: err_bind_Inr_iff)
  then show ?thesis using p by (cases y) auto
qed

lemma learn_loop_rule:
  assumes "learn_loop one_step xs s = Inr s'"
    and "I [] s"
    and "\<And>ys i s1 r s2. I ys s1 \<Longrightarrow> i \<in> set xs \<Longrightarrow> one_step s1 i = Inr (r, s2)
            \<Longrightarrow> I (ys @ [i]) (s2\<lparr>avg_reward := avg_reward s2 @ [np_mean r]\<rparr>)"
  shows "I xs s'"
  using assms
proof (induction xs arbitrary: s' rule: rev_induct)
  case Nil
  then show ?case by simp
next
  case (snoc x xs)
  from learn_loop_snoc_Inr[OF snoc.prems(1)] obtain s1 r s2 where
    a: "learn_loop one_step xs s = Inr s1" and b: "one_step s1 x = Inr (r, s2)"
    and c: "s' = s2\<lparr>avg_reward := avg_reward s2 @ [np_mean r]\<rparr>"
    by blast
  have "I xs s1"
    by (rule snoc.IH[OF a snoc.prems(2)]) (rule snoc.prems(3), simp_all)
  then show ?case using b c snoc.prems(3) by simp
qed

lemma initial_run_loop_append:
  "initial_run_loop env (xs @ ys) s = err_bind (initial_run_loop env xs s) (initial_run_loop env ys)"
proof (induction xs arbitrary: s)
  case Nil
  then show ?case by simp
next
  case (Cons x xs)
  show ?case
  proof (cases "for_each (initial_visit env x) [0..<narms s] s []")
    case (Inl e)
    then show ?thesis by simp
  next
    case (Inr p)
    then show ?thesis using Cons.IH by (cases p) simp
  qed
qed

lemma initial_run_loop_total:
  assumes "I [] s"
    and "\<And>ys b s1. I ys s1 \<Longrightarrow> b \<in> set xs \<Longrightarrow>
            \<exists>R s2. for_each (initial_visit env b) [0..<narms s1] s1 [] = Inr (R, s2) \<and>
                    I (ys @ [b]) (s2\<lparr>avg_reward := avg_reward s2 @ [np_mean R]\<rparr>)"
  shows "\<exists>s'. initial_run_loop env xs s = Inr s' \<and> I xs s'"
  using assms
proof (induction xs rule: rev_induct)
  case Nil
  then show ?case by simp
next
  case (snoc x xs)
  have "\<exists>s1. initial_run_loop env xs s = Inr s1 \<and> I xs s1"
    by (rule snoc.IH[OF snoc.prems(1)]) (rule snoc.prems(2), simp_all)
  then obtain s1 where a: "initial_run_loop env xs s = Inr s1" and i: "I xs s1" by blast
  from snoc.prems(2)[OF i, of x] obtain R s2 where
    "for_each (initial_visit env x) [0..<narms s1] s1 [] = Inr (R, s2)"
    "I (xs @ [x]) (s2\<lparr>avg_reward := avg_reward s2 @ [np_mean R]\<rparr>)"
    by auto
  then show ?case using a by (simp add: initial_run_loop_append)
qed

subsection \<open>Choosing an arm\<close>

lemma argmax_scan_bound: "best < i \<Longrightarrow> argmax_scan xs i mp best < i + length xs"
proof (induction xs arbitrary: i mp best)
  case Nil
  then show ?case by simp
next
  case (Cons x xs)
  have "argmax_scan xs (Suc i) x i < Suc i + length xs"
    using Cons.IH[of i "Suc i" x] by simp
  moreover have "argmax_scan xs (Suc i) mp best < Suc i + length xs"
    using Cons.IH[of best "Suc i" mp] Cons.prems by simp
  ultimately show ?case using Cons.prems by simp
qed

lemma np_argmax_bound: "np_argmax xs = Inr a \<Longrightarrow> a < length xs"
  using argmax_scan_bound[of 0 1 "tl xs" "hd xs"] by (cases xs) auto

lemma np_argmax_total: "xs \<noteq> [] \<Longrightarrow> \<exists>a. np_argmax xs = Inr a"
  by (cases xs) auto

lemma first_argmax_iff:
  "first_argmax xs a \<longleftrightarrow> a < length xs \<and> (\<forall>j<length xs. xs ! j \<le> xs ! a) \<and> (\<forall>j<a. xs ! j < xs ! a)"
  by (auto simp add: first_argmax_def list_all_length)

lemma first_argmax_unique: "first_argmax xs a \<Longrightarrow> first_argmax xs a' \<Longrightarrow> a = a'"
  unfolding first_argmax_iff by (metis linorder_neqE_nat not_le)

lemma first_argmax_dominant:
  "k < length xs \<Longrightarrow> (\<forall>j<length xs. j \<noteq> k \<longrightarrow> xs ! j < xs ! k) \<Longrightarrow> first_argmax xs k"
  unfolding first_argmax_iff by (metis less_imp_le less_trans nat_neq_iff order_refl)

lemma argmax_scan_first:
  "first_argmax ps best \<Longrightarrow>
   first_argmax (ps @ xs) (argmax_scan (map Fin xs) (length ps) (Fin (ps ! best)) best)"
proof (induction xs arbitrary: ps best)
  case Nil
  then show ?case by simp
next
  case (Cons x xs)
  show ?case
  proof (cases "x \<le> ps ! best")
    case True
    have "first_argmax (ps @ [x]) best"
      using Cons.prems True by (auto simp add: first_argmax_iff nth_append less_Suc_eq)
    moreover have "(ps @ [x]) ! best = ps ! best"
      using Cons.prems by (simp add: first_argmax_iff nth_append)
    ultimately show ?thesis using Cons.IH[of "ps @ [x]" best] True by simp
  next
    case False
    have "first_argmax (ps @ [x]) (length ps)"
      using Cons.prems False unfolding first_argmax_iff
      by (auto simp add: nth_append less_Suc_eq)
    from Cons.IH[OF this] False show ?thesis by simp
  qed
qed

lemma np_argmax_first:
  assumes "xs \<noteq> []"
  shows "\<exists>a. np_argmax (map Fin xs) = Inr a \<and> first_argmax xs a"
proof -
  obtain x ys where xs: "xs = x # ys" using assms by (cases xs) auto
  have "first_argmax [x] 0" by (simp add: first_argmax_iff)
  from argmax_scan_first[OF this, of ys] show ?thesis by (simp add: xs)
qed

subsection \<open>One decision of each policy\<close>

lemma bumped_tick [simp]: "bumped k d (s\<lparr>tick := t\<rparr>) b a r s' = bumped k d s b a r s'"
  by (simp add: bumped_def)

lemma more_temp: "bandit.more s' = bandit.more s \<Longrightarrow> temp s' = temp s"
  by (cases s; cases s') simp

lemma EpsGreedy_get_action_Inr:
  assumes "EpsGreedy_get_action env s b = Inr (a, s1)" "wf s" "b < nbandits s"
  shows "a < narms s \<and> (\<exists>t. s1 = s\<lparr>tick := t\<rparr>)"
proof (cases "random_draw env (tick s) < eps s")
  case True
  with assms(1) show ?thesis
    by (auto simp add: EpsGreedy_get_action_def Let_def np_randint_def err_bind_Inr_iff split: if_splits)
next
  case False
  with assms(1) obtain a' where "np_argmax (map Fin (Q s ! b)) = Inr a'" "a = a'" "s1 = s\<lparr>tick := Suc (tick s)\<rparr>"
    by (auto simp add: EpsGreedy_get_action_def Let_def err_bind_Inr_iff split: if_splits)
  with np_argmax_bound[of "map Fin (Q s ! b)" a] assms(2,3) show ?thesis
    by (auto simp add: wf_rows)
qed

lemma EpsGreedy_get_action_total:
  assumes "wf s" "b < nbandits s" "0 < narms s"
  shows "\<exists>a t. EpsGreedy_get_action env s b = Inr (a, s\<lparr>tick := t\<rparr>)"
proof -
  have "map Fin (Q s ! b) \<noteq> []" "b < length (Q s)"
    using assms wf_rows[of s b] by (auto simp add: wf_lengths)
  then obtain a where "np_argmax (map Fin (Q s ! b)) = Inr a"
    using np_argmax_total by blast
  then show ?thesis using assms \<open>b < length (Q s)\<close>
    by (auto simp add: EpsGreedy_get_action_def Let_def np_randint_def)
qed

lemma EpsGreedy_decide_Inr:
  assumes "EpsGreedy_decide env s b = Inr (r, s')" "wf s" "b < nbandits s"
  shows "\<exists>a<narms s. bumped 1 1 s b a r s'"
proof -
  from assms(1) obtain a s1 where ga: "EpsGreedy_get_action env s b = Inr (a, s1)"
    and rest: "err_bind (get_reward env s1 b a) (\<lambda>(reward, s2).
     err_bind (update_regret s2 b a) (\<lambda>s3.
     err_bind (update_then_incr s3 b a reward) (\<lambda>s4.
     Inr (reward, s4)))) = Inr (r, s')"
    by (auto simp add: EpsGreedy_decide_def err_bind_Inr_iff)
  from EpsGreedy_get_action_Inr[OF ga assms(2,3)] obtain t where a: "a < narms s" and s1: "s1 = s\<lparr>tick := t\<rparr>"
    by blast
  have "wf s1" "b < nbandits s1" "a < narms s1" using assms a s1 by simp_all
  from EpsGreedy_body_ok[OF this, of env] rest have "bumped 1 1 s1 b a r s'" by auto
  with a s1 show ?thesis by auto
qed

lemma EpsGreedy_decide_total:
  assumes "wf s" "b < nbandits s" "0 < narms s"
  shows "\<exists>r s'. EpsGreedy_decide env s b = Inr (r, s')"
proof -
  from EpsGreedy_get_action_total[OF assms] obtain a t where
    ga: "EpsGreedy_get_action env s b = Inr (a, s\<lparr>tick := t\<rparr>)" by blast
  from EpsGreedy_get_action_Inr[OF ga assms(1,2)] have a: "a < narms s" by simp
  have "wf (s\<lparr>tick := t\<rparr>)" "b < nbandits (s\<lparr>tick := t\<rparr>)" "a < narms (s\<lparr>tick := t\<rparr>)"
    using assms a by simp_all
  from EpsGreedy_body_ok[OF this, of env] ga show ?thesis
    by (auto simp add: EpsGreedy_decide_def)
qed

text \<open>UCB\<close>

lemma UCB_get_action_Inr:
  assumes "UCB_get_action s t b = Inr a" "wf s" "b < nbandits s"
  shows "a < narms s"
proof -
  from assms(1) obtain zs where z: "UCB_scores s t b = Inr zs" and a: "np_argmax zs = Inr a"
    by (auto simp add: UCB_get_action_def err_bind_Inr_iff)
  have "length (Q s ! b) = length (counts s ! b)" "length (Q s ! b) = narms s"
    using assms(2,3) by (simp_all add: wf_rows)
  with z have "length zs = narms s"
    by (auto simp add: UCB_scores_def np_broadcast_def split: if_splits)
  with np_argmax_bound[OF a] show ?thesis by simp
qed

lemma UCB_get_action_total:
  assumes "wf s" "b < nbandits s" "0 < narms s"
  shows "\<exists>a. UCB_get_action s t b = Inr a"
proof -
  have l: "length (Q s ! b) = length (counts s ! b)" "length (Q s ! b) = narms s"
    "b < length (Q s)" "b < length (counts s)"
    using assms by (simp_all add: wf_rows wf_lengths)
  then obtain zs where z: "UCB_scores s t b = Inr zs" "length zs = narms s"
    by (auto simp add: UCB_scores_def np_broadcast_def)
  with assms(3) have "zs \<noteq> []" by auto
  from np_argmax_total[OF this] z show ?thesis by (auto simp add: UCB_get_action_def)
qed

lemma UCB_decide_Inr:
  assumes "UCB_decide env i s b = Inr (r, s')" "wf s" "b < nbandits s"
  shows "\<exists>a<narms s. bumped 2 2 s b a r s'"
proof -
  from assms(1) obtain a where ga: "UCB_get_action s i b = Inr a"
    and rest: "apply_action env s b a = Inr (r, s')"
    by (auto simp add: UCB_decide_def err_bind_Inr_iff)
  from UCB_get_action_Inr[OF ga assms(2,3)] have a: "a < narms s" .
  from apply_action_ok[OF assms(2,3) a, of env] rest a show ?thesis by auto
qed

lemma UCB_decide_total:
  assumes "wf s" "b < nbandits s" "0 < narms s"
  shows "\<exists>r s'. UCB_decide env i s b = Inr (r, s')"
proof -
  from UCB_get_action_total[OF assms] obtain a where ga: "UCB_get_action s i b = Inr a" by blast
  from UCB_get_action_Inr[OF ga assms(1,2)] have a: "a < narms s" .
  from apply_action_ok[OF assms(1,2) a, of env] ga show ?thesis
    by (auto simp add: UCB_decide_def)
qed

text \<open>SoftmaxActionSelection\<close>

lemma sum_list_nonpos_real: "(\<And>x. x \<in> set xs \<Longrightarrow> f x \<le> (0::real)) \<Longrightarrow> sum_list (map f xs) \<le> 0"
  by (induction xs) (auto intro: add_nonpos_nonpos)

lemma np_choice_Inr:
  assumes "np_choice env k n p = Inr a"
  shows "a < n"
proof -
  let ?support = "filter (\<lambda>i. 0 < the_Fin (p ! i)) [0..<n]"
  from assms have n: "0 < n" "length p = n" and s1: "sum_list (map the_Fin p) = 1"
    and a: "a = ?support ! (index_draw env k mod length ?support)"
    by (auto simp add: np_choice_def Let_def split: if_splits)
  have "?support \<noteq> []"
  proof
    assume "?support = []"
    then have "\<forall>i<n. the_Fin (p ! i) \<le> 0"
      by (auto simp add: filter_empty_conv not_less)
    then have "\<And>x. x \<in> set p \<Longrightarrow> the_Fin x \<le> 0"
      using n by (auto simp add: in_set_conv_nth)
    then have "sum_list (map the_Fin p) \<le> 0" by (rule sum_list_nonpos_real[of p the_Fin])
    with s1 show False by simp
  qed
  then have "index_draw env k mod length ?support < length ?support" by simp
  then have "a \<in> set ?support" unfolding a by (rule nth_mem)
  then show ?thesis by simp
qed

lemma Softmax_get_action_Inr:
  assumes "Softmax_get_action env s b = Inr (a, s1)"
  shows "a < narms s \<and> s1 = s\<lparr>tick := Suc (tick s)\<rparr>"
  using assms
  by (auto simp add: Softmax_get_action_def err_bind_Inr_iff split: if_splits dest: np_choice_Inr)

lemma np_sum_Fin_acc: "foldl np_add (Fin acc) (map Fin ys) = Fin (acc + sum_list ys)"
  by (induction ys arbitrary: acc) (simp_all add: add.assoc)

lemma np_sum_Fin: "np_sum (map Fin ys) = Fin (sum_list ys)"
  using np_sum_Fin_acc[of 0 ys] by (simp add: np_sum_def)

lemma sum_list_pos_real: "xs \<noteq> [] \<Longrightarrow> (\<And>x. x \<in> set xs \<Longrightarrow> 0 < f x) \<Longrightarrow> (0::real) < sum_list (map f xs)"
proof (induction xs)
  case Nil
  then show ?case by simp
next
  case (Cons a xs)
  have "0 < f a" using Cons.prems(2) by simp
  moreover have "0 \<le> sum_list (map f xs)"
    using Cons.prems(2) by (intro sum_list_nonneg) (auto simp add: less_imp_le)
  ultimately show ?case by (simp add: add_pos_nonneg)
qed

lemma sum_list_divide_real: "sum_list (map (\<lambda>x. f x / (c::real)) xs) = sum_list (map f xs) / c"
  by (induction xs) (simp_all add: add_divide_distrib)

lemma softmax_finite:
  assumes "temp s \<noteq> 0" "x \<noteq> []"
  shows "softmax s x = map (\<lambda>v. Fin (exp (v / temp s) / sum_list (map (\<lambda>v. exp (v / temp s)) x))) x"
proof -
  have ex: "map (\<lambda>v. np_exp (np_div (Fin v) (Fin (temp s)))) x = map Fin (map (\<lambda>v. exp (v / temp s)) x)"
    using assms(1) by simp
  have pos: "0 < sum_list (map (\<lambda>v. exp (v / temp s)) x)"
    by (rule sum_list_pos_real[OF assms(2)]) simp
  show ?thesis
    unfolding softmax_def Let_def ex np_sum_Fin using pos by simp
qed

lemma Softmax_get_action_ok:
  assumes "wf s" "b < nbandits s" "0 < narms s" "temp s \<noteq> 0"
  shows "Softmax_get_action env s b = Inr (index_draw env (tick s) mod narms s, s\<lparr>tick := Suc (tick s)\<rparr>)"
proof -
  let ?x = "Q s ! b"
  let ?T = "sum_list (map (\<lambda>v. exp (v / temp s)) ?x)"
  let ?p = "map (\<lambda>v. Fin (exp (v / temp s) / ?T)) ?x"
  have l: "length ?x = narms s" "b < length (Q s)" using assms by (simp_all add: wf_rows wf_lengths)
  with assms(3) have ne: "?x \<noteq> []" by auto
  have sm: "softmax s ?x = ?p" by (rule softmax_finite[OF assms(4) ne])
  have pos: "0 < ?T" by (rule sum_list_pos_real[OF ne]) simp
  have fin: "list_all is_Fin ?p" by (simp add: list_all_iff)
  have nonneg: "list_all (\<lambda>x. 0 \<le> the_Fin x) ?p" using pos by (simp add: list_all_iff less_imp_le)
  have "map the_Fin ?p = map (\<lambda>v. exp (v / temp s) / ?T) ?x" by simp
  then have one: "sum_list (map the_Fin ?p) = 1"
    using pos by (simp only: sum_list_divide_real) simp
  have "filter (\<lambda>i. 0 < the_Fin (?p ! i)) [0..<narms s] = [0..<narms s]"
    using pos l by (auto simp add: filter_id_conv)
  then have "np_choice env (tick s) (narms s) ?p = Inr (index_draw env (tick s) mod narms s)"
    using assms(3) l fin nonneg one by (simp add: np_choice_def Let_def)
  then show ?thesis using l by (simp add: Softmax_get_action_def sm)
qed

lemma Softmax_decide_Inr:
  assumes "Softmax_decide env s b = Inr (r, s')" "wf s" "b < nbandits s"
  shows "\<exists>a<narms s. bumped 2 2 s b a r s'"
proof -
  from assms(1) obtain a s1 where ga: "Softmax_get_action env s b = Inr (a, s1)"
    and rest: "apply_action env s1 b a = Inr (r, s')"
    by (auto simp add: Softmax_decide_def err_bind_Inr_iff)
  from Softmax_get_action_Inr[OF ga] have a: "a < narms s" and s1: "s1 = s\<lparr>tick := Suc (tick s)\<rparr>"
    by simp_all
  have "wf s1" "b < nbandits s1" "a < narms s1" using assms a s1 by simp_all
  from apply_action_ok[OF this, of env] rest have "bumped 2 2 s1 b a r s'" by auto
  with a s1 show ?thesis by auto
qed

lemma Softmax_decide_total:
  assumes "wf s" "b < nbandits s" "0 < narms s" "temp s \<noteq> 0"
  shows "\<exists>r s'. Softmax_decide env s b = Inr (r, s')"
proof -
  let ?a = "index_draw env (tick s) mod narms s"
  let ?s1 = "s\<lparr>tick := Suc (tick s)\<rparr>"
  have a: "?a < narms s" using assms(3) by simp
  have "wf ?s1" "b < nbandits ?s1" "?a < narms ?s1" using assms a by simp_all
  from apply_action_ok[OF this, of env] Softmax_get_action_ok[OF assms, of env] show ?thesis
    by (auto simp add: Softmax_decide_def)
qed

subsection \<open>Progress of the counters and of the regret history\<close>

lemma sum_list_update_real:
  "a < length xs \<Longrightarrow> sum_list (xs[a := v]) = sum_list xs - xs ! a + (v::real)"
proof (induction xs arbitrary: a)
  case Nil
  then show ?case by simp
next
  case (Cons x xs)
  then show ?case by (cases a) simp_all
qed

lemma bumped_row_sum:
  assumes "bumped k d s b a r s'" "wf s" "b < nbandits s" "a < narms s"
  shows "row_sum s' b' = row_sum s b' + (if b' = b then k else 0)"
proof -
  have l: "b < length (counts s)" "a < length (counts s ! b)"
    using assms by (simp_all add: wf_lengths wf_rows)
  have c: "counts s' = mat_set (counts s) b a (counts s ! b ! a + k)"
    using assms(1) by (simp add: bumped_def)
  show ?thesis
    using l by (simp add: row_sum_def c mat_set_row_other mat_set_row_same sum_list_update_real)
qed

lemma bumped_regret_inv:
  assumes "bumped k d s b a r s'" "regret_inv s"
  shows "regret_inv s'"
proof -
  have r: "regrets s' = regrets s @ [regret s']" "regret s \<le> regret s'"
    using assms(1) by (simp_all add: bumped_def)
  have "\<forall>x\<in>set (regrets s). 0 \<le> x \<and> x \<le> regret s" "sorted (regrets s)" "0 \<le> regret s"
    using assms(2) by (simp_all add: regret_inv_def list_all_iff)
  then show ?thesis
    using r by (auto simp add: regret_inv_def list_all_iff sorted_append)
qed

lemma progressed_refl: "wf s \<Longrightarrow> progressed k [] s s"
  by (simp add: progressed_def list_all_iff)

lemma progressed_frame [simp]:
  "progressed k bs s (s'\<lparr>avg_reward := v\<rparr>) = progressed k bs s s'"
  "progressed k bs s (s'\<lparr>tick := t\<rparr>) = progressed k bs s s'"
  by (simp_all add: progressed_def row_sum_def regret_inv_def)

lemma progressed_step:
  assumes "progressed k bs s s1" "b < nbandits s" "a < narms s" "bumped k d s1 b a r s2"
  shows "progressed k (bs @ [b]) s s2"
proof -
  have p: "wf s1" "nbandits s1 = nbandits s" "narms s1 = narms s" "rewards s1 = rewards s"
    "bandit.more s1 = bandit.more s" "length (regrets s1) = length (regrets s) + length bs"
    "regret_inv s \<longrightarrow> regret_inv s1"
    "\<forall>b'<nbandits s. row_sum s1 b' = row_sum s b' + k * real (count_list bs b')"
    using assms(1) by (simp_all add: progressed_def list_all_iff)
  have q: "wf s2" "nbandits s2 = nbandits s1" "narms s2 = narms s1" "rewards s2 = rewards s1"
    "bandit.more s2 = bandit.more s1" "regrets s2 = regrets s1 @ [regret s2]"
    using assms(4) by (simp_all add: bumped_def)
  have rs: "\<And>b'. row_sum s2 b' = row_sum s1 b' + (if b' = b then k else 0)"
    by (rule bumped_row_sum[OF assms(4) p(1)]) (simp_all add: p assms)
  have ri: "regret_inv s \<longrightarrow> regret_inv s2"
    using p(7) bumped_regret_inv[OF assms(4)] by blast
  show ?thesis
    unfolding progressed_def
    using p q ri by (simp add: list_all_iff rs algebra_simps)
qed

lemma progressed_trans:
  assumes "progressed k bs s s1" "progressed k cs s1 s2"
  shows "progressed k (bs @ cs) s s2"
  using assms by (simp add: progressed_def list_all_iff algebra_simps)

lemma count_list_upt: "count_list [0..<n] b = (if b < n then 1 else 0)"
  by (induction n) auto

lemma count_list_replicate: "count_list (replicate n x) b = (if b = x then n else 0)"
  by (induction n) auto

subsection \<open>One timestep, the main loop, the initial run\<close>

lemma sweep_rule:
  assumes run: "for_each body [0..<nbandits s] s [] = Inr (R, s')" and wf: "wf s"
    and body: "\<And>s1 b r s2. body s1 b = Inr (r, s2) \<Longrightarrow> wf s1 \<Longrightarrow> b < nbandits s1 \<Longrightarrow>
                 \<exists>a<narms s1. bumped k d s1 b a r s2"
  shows "progressed k [0..<nbandits s] s s' \<and> avg_reward s' = avg_reward s \<and> length R = nbandits s"
proof -
  let ?I = "\<lambda>(ys::nat list) s1 (R1::real list).
              progressed k ys s s1 \<and> avg_reward s1 = avg_reward s \<and> length R1 = length ys"
  have "?I [0..<nbandits s] s' R"
  proof (rule for_each_rule[OF run, where I = ?I])
    show "?I [] s []" using wf by (simp add: progressed_refl)
  next
    fix ys x s1 R1 r s2
    assume i: "?I ys s1 R1" and x: "x \<in> set [0..<nbandits s]" and b: "body s1 x = Inr (r, s2)"
    from i have p: "wf s1" "nbandits s1 = nbandits s" "narms s1 = narms s"
      by (simp_all add: progressed_def)
    from body[OF b p(1)] x p obtain a where a: "a < narms s1" "bumped k d s1 x a r s2" by auto
    have "progressed k (ys @ [x]) s s2"
      by (rule progressed_step[OF _ _ _ a(2)]) (use i x a p in simp_all)
    moreover have "avg_reward s2 = avg_reward s" using a(2) i by (simp add: bumped_def)
    ultimately show "?I (ys @ [x]) s2 (R1 @ [r])" using i by simp
  qed
  then show ?thesis by simp
qed

lemma EpsGreedy_one_step_Inr:
  assumes "EpsGreedy_one_step env s i = Inr (R, s')" "wf s"
  shows "progressed 1 [0..<nbandits s] s s' \<and> avg_reward s' = avg_reward s \<and> length R = nbandits s"
  by (rule sweep_rule[OF assms[unfolded EpsGreedy_one_step_def]]) (rule EpsGreedy_decide_Inr)

lemma UCB_one_step_Inr:
  assumes "UCB_one_step env s i = Inr (R, s')" "wf s"
  shows "progressed 2 [0..<nbandits s] s s' \<and> avg_reward s' = avg_reward s \<and> length R = nbandits s"
  by (rule sweep_rule[OF assms[unfolded UCB_one_step_def]]) (rule UCB_decide_Inr)

lemma Softmax_one_step_Inr:
  assumes "Softmax_one_step env s i = Inr (R, s')" "wf s"
  shows "progressed 2 [0..<nbandits s] s s' \<and> avg_reward s' = avg_reward s \<and> length R = nbandits s"
  by (rule sweep_rule[OF assms[unfolded Softmax_one_step_def]]) (rule Softmax_decide_Inr)

lemma learn_rule:
  assumes run: "learn_loop one_step js s = Inr s'" and wf: "wf s"
    and step: "\<And>s1 i R s2. wf s1 \<Longrightarrow> one_step s1 i = Inr (R, s2) \<Longrightarrow>
                 progressed k [0..<nbandits s1] s1 s2 \<and> avg_reward s2 = avg_reward s1 \<and>
                 length R = nbandits s1"
  shows "\<exists>bs. progressed k bs s s' \<and> (\<forall>b<nbandits s. count_list bs b = length js) \<and>
              length bs = length js * nbandits s \<and>
              length (avg_reward s') = length (avg_reward s) + length js"
proof -
  let ?I = "\<lambda>(ys::nat list) s1. \<exists>bs. progressed k bs s s1 \<and> (\<forall>b<nbandits s. count_list bs b = length ys) \<and>
              length bs = length ys * nbandits s \<and>
              length (avg_reward s1) = length (avg_reward s) + length ys"
  show ?thesis
  proof (rule learn_loop_rule[OF run, where I = ?I])
    show "?I [] s" using wf by (auto intro!: exI[of _ "[]"] simp add: progressed_refl)
  next
    fix ys i s1 r s2
    assume i: "?I ys s1" and o: "one_step s1 i = Inr (r, s2)"
    from i obtain bs where bs: "progressed k bs s s1" "\<forall>b<nbandits s. count_list bs b = length ys"
      "length bs = length ys * nbandits s" "length (avg_reward s1) = length (avg_reward s) + length ys"
      by blast
    have p: "wf s1" "nbandits s1 = nbandits s" using bs(1) by (simp_all add: progressed_def)
    from step[OF p(1) o] have st: "progressed k [0..<nbandits s] s1 s2" "avg_reward s2 = avg_reward s1"
      by (simp_all add: p)
    have "progressed k (bs @ [0..<nbandits s]) s s2" by (rule progressed_trans[OF bs(1) st(1)])
    then show "?I (ys @ [i]) (s2\<lparr>avg_reward := avg_reward s2 @ [np_mean r]\<rparr>)"
      using bs st by (intro exI[of _ "bs @ [0..<nbandits s]"]) (simp add: count_list_upt)
  qed
qed

lemma initial_sweep:
  assumes "wf s" "b < nbandits s"
  shows "\<exists>R s'. for_each (initial_visit env b) [0..<narms s] s [] = Inr (R, s') \<and>
           progressed 1 (replicate (narms s) b) s s' \<and> avg_reward s' = avg_reward s \<and>
           length R = narms s"
proof -
  let ?I = "\<lambda>(ys::nat list) s1 (R1::real list).
              progressed 1 (replicate (length ys) b) s s1 \<and> avg_reward s1 = avg_reward s \<and>
              length R1 = length ys"
  have "\<exists>R s'. for_each (initial_visit env b) [0..<narms s] s [] = Inr (R, s') \<and> ?I [0..<narms s] s' R"
  proof (rule for_each_total[where I = ?I])
    show "?I [] s []" using assms by (simp add: progressed_refl)
  next
    fix ys x s1 R1
    assume i: "?I ys s1 R1" and x: "x \<in> set [0..<narms s]"
    from i have p: "wf s1" "nbandits s1 = nbandits s" "narms s1 = narms s"
      by (simp_all add: progressed_def)
    from initial_visit_ok[of s1 b x env] p assms x obtain r s2 where
      v: "initial_visit env b s1 x = Inr (r, s2)" "bumped 1 2 s1 b x r s2" by auto
    have "progressed 1 (replicate (length ys) b @ [b]) s s2"
      by (rule progressed_step[OF _ _ _ v(2)]) (use i x assms in simp_all)
    moreover have "avg_reward s2 = avg_reward s" using v(2) i by (simp add: bumped_def)
    ultimately show "\<exists>r s2. initial_visit env b s1 x = Inr (r, s2) \<and> ?I (ys @ [x]) s2 (R1 @ [r])"
      using i v(1) by (simp add: replicate_append_same)
  qed
  then show ?thesis by simp
qed

lemma initial_run_ok:
  assumes "wf s"
  shows "\<exists>bs s'. initial_run env s = Inr s' \<and> progressed 1 bs s s' \<and>
           (\<forall>b<nbandits s. count_list bs b = narms s) \<and> length bs = nbandits s * narms s \<and>
           length (avg_reward s') = length (avg_reward s) + nbandits s"
proof -
  let ?I = "\<lambda>(ys::nat list) s1. \<exists>bs. progressed 1 bs s s1 \<and>
              (\<forall>b<nbandits s. count_list bs b = narms s * count_list ys b) \<and>
              length bs = length ys * narms s \<and>
              length (avg_reward s1) = length (avg_reward s) + length ys"
  have "\<exists>s'. initial_run_loop env [0..<nbandits s] s = Inr s' \<and> ?I [0..<nbandits s] s'"
  proof (rule initial_run_loop_total[where I = ?I])
    show "?I [] s" using assms by (auto intro!: exI[of _ "[]"] simp add: progressed_refl)
  next
    fix ys b s1
    assume i: "?I ys s1" and b: "b \<in> set [0..<nbandits s]"
    from i obtain bs where bs: "progressed 1 bs s s1"
      "\<forall>b<nbandits s. count_list bs b = narms s * count_list ys b"
      "length bs = length ys * narms s" "length (avg_reward s1) = length (avg_reward s) + length ys"
      by blast
    have p: "wf s1" "nbandits s1 = nbandits s" "narms s1 = narms s"
      using bs(1) by (simp_all add: progressed_def)
    from initial_sweep[of s1 b env] p b obtain R s2 where
      sw: "for_each (initial_visit env b) [0..<narms s1] s1 [] = Inr (R, s2)"
      "progressed 1 (replicate (narms s) b) s1 s2" "avg_reward s2 = avg_reward s1"
      by auto
    have "progressed 1 (bs @ replicate (narms s) b) s s2"
      by (rule progressed_trans[OF bs(1) sw(2)])
    then have "?I (ys @ [b]) (s2\<lparr>avg_reward := avg_reward s2 @ [np_mean R]\<rparr>)"
      using bs sw(3)
      by (intro exI[of _ "bs @ replicate (narms s) b"]) (simp add: count_list_replicate algebra_simps)
    with sw(1) show "\<exists>R s2. for_each (initial_visit env b) [0..<narms s1] s1 [] = Inr (R, s2) \<and>
                    ?I (ys @ [b]) (s2\<lparr>avg_reward := avg_reward s2 @ [np_mean R]\<rparr>)"
      by blast
  qed
  then show ?thesis by (auto simp add: initial_run_def count_list_upt)
qed

subsection \<open>Whole runs\<close>

lemma sum_list_replicate_zero: "sum_list (replicate n (0::real)) = 0"
  by (induction n) simp_all

lemma init_props:
  assumes "GaussianBandits_init env bandits arms ext = Inr s"
  shows "wf s \<and> nbandits s = nat bandits \<and> narms s = nat arms \<and> 0 \<le> bandits \<and> 0 \<le> arms \<and>
         regret_inv s \<and> regrets s = [0] \<and> avg_reward s = [] \<and> tick s = 0 \<and>
         bandit.more s = ext \<and> (\<forall>b<nbandits s. row_sum s b = 0)"
  using assms
  by (auto simp add: GaussianBandits_init_def wf_def list_all_iff regret_inv_def row_sum_def
      sum_list_replicate_zero split: if_splits)

lemma cold_learn_summary:
  assumes run: "learn_loop one_step [0..<m] s = Inr s'" and wf: "wf s"
    and step: "\<And>s1 i R s2. wf s1 \<Longrightarrow> one_step s1 i = Inr (R, s2) \<Longrightarrow>
                 progressed k [0..<nbandits s1] s1 s2 \<and> avg_reward s2 = avg_reward s1 \<and>
                 length R = nbandits s1"
  shows "wf s' \<and> nbandits s' = nbandits s \<and> narms s' = narms s \<and>
         (regret_inv s \<longrightarrow> regret_inv s') \<and>
         (\<forall>b<nbandits s. row_sum s' b = row_sum s b + k * real m) \<and>
         length (regrets s') = length (regrets s) + m * nbandits s \<and>
         length (avg_reward s') = length (avg_reward s) + m"
proof -
  have "\<exists>bs. progressed k bs s s' \<and> (\<forall>b<nbandits s. count_list bs b = length [0..<m]) \<and>
              length bs = length [0..<m] * nbandits s \<and>
              length (avg_reward s') = length (avg_reward s) + length [0..<m]"
    by (rule learn_rule[OF run wf]) (rule step)
  then show ?thesis by (auto simp add: progressed_def list_all_iff)
qed

lemma warm_learn_summary:
  assumes run: "err_bind (initial_run env s) (\<lambda>s1. learn_loop one_step [0..<m] s1) = Inr s'"
    and wf: "wf s"
    and step: "\<And>s1 i R s2. wf s1 \<Longrightarrow> one_step s1 i = Inr (R, s2) \<Longrightarrow>
                 progressed k [0..<nbandits s1] s1 s2 \<and> avg_reward s2 = avg_reward s1 \<and>
                 length R = nbandits s1"
  shows "wf s' \<and> nbandits s' = nbandits s \<and> narms s' = narms s \<and>
         (regret_inv s \<longrightarrow> regret_inv s') \<and>
         (\<forall>b<nbandits s. row_sum s' b = row_sum s b + real (narms s) + k * real m) \<and>
         length (regrets s') = length (regrets s) + nbandits s * narms s + m * nbandits s \<and>
         length (avg_reward s') = length (avg_reward s) + nbandits s + m"
proof -
  from run obtain s1 where i: "initial_run env s = Inr s1" and l: "learn_loop one_step [0..<m] s1 = Inr s'"
    by (auto simp add: err_bind_Inr_iff)
  from initial_run_ok[OF wf, of env] i obtain bs where
    bs: "progressed 1 bs s s1" "\<forall>b<nbandits s. count_list bs b = narms s"
    "length bs = nbandits s * narms s" "length (avg_reward s1) = length (avg_reward s) + nbandits s"
    by auto
  have p: "wf s1" "nbandits s1 = nbandits s" "narms s1 = narms s" "regret_inv s \<longrightarrow> regret_inv s1"
    "\<forall>b<nbandits s. row_sum s1 b = row_sum s b + real (narms s)"
    "length (regrets s1) = length (regrets s) + nbandits s * narms s"
    using bs by (simp_all add: progressed_def list_all_iff)
  have "wf s' \<and> nbandits s' = nbandits s1 \<and> narms s' = narms s1 \<and>
         (regret_inv s1 \<longrightarrow> regret_inv s') \<and>
         (\<forall>b<nbandits s1. row_sum s' b = row_sum s1 b + k * real m) \<and>
         length (regrets s') = length (regrets s1) + m * nbandits s1 \<and>
         length (avg_reward s') = length (avg_reward s1) + m"
    by (rule cold_learn_summary[OF l p(1)]) (rule step)
  with p bs(4) show ?thesis by simp
qed

lemma EpsGreedy_run_summary:
  assumes "EpsGreedy_run env bandits arms e n = Inr s'"
  shows "wf s' \<and> nbandits s' = nat bandits \<and> narms s' = nat arms \<and> regret_inv s' \<and>
         (\<forall>b<nbandits s'. row_sum s' b = real (nat n)) \<and>
         length (regrets s') = 1 + nat n * nat bandits \<and> length (avg_reward s') = nat n"
proof -
  from assms obtain s where i: "GaussianBandits_init env bandits arms (epsgreedy.fields e) = Inr s"
    and l: "learn_loop (EpsGreedy_one_step env) [0..<nat n] s = Inr s'"
    by (auto simp add: EpsGreedy_run_def EpsGreedy_init_def EpsGreedy_learn_def err_bind_Inr_iff)
  note p = init_props[OF i]
  from p have wf: "wf s" by simp
  have "wf s' \<and> nbandits s' = nbandits s \<and> narms s' = narms s \<and>
         (regret_inv s \<longrightarrow> regret_inv s') \<and>
         (\<forall>b<nbandits s. row_sum s' b = row_sum s b + 1 * real (nat n)) \<and>
         length (regrets s') = length (regrets s) + nat n * nbandits s \<and>
         length (avg_reward s') = length (avg_reward s) + nat n"
    by (rule cold_learn_summary[OF l wf]) (rule EpsGreedy_one_step_Inr)
  with p show ?thesis by simp
qed

lemma UCB_run_summary:
  assumes "UCB_run env bandits arms n = Inr s'"
  shows "wf s' \<and> nbandits s' = nat bandits \<and> narms s' = nat arms \<and> regret_inv s' \<and>
         (\<forall>b<nbandits s'. row_sum s' b = real (nat arms) + 2 * real (nat n)) \<and>
         length (regrets s') = 1 + nat bandits * nat arms + nat n * nat bandits \<and>
         length (avg_reward s') = nat bandits + nat n"
proof -
  from assms obtain s where i: "GaussianBandits_init env bandits arms () = Inr s"
    and l: "err_bind (initial_run env s) (\<lambda>s1. learn_loop (UCB_one_step env) [0..<nat n] s1) = Inr s'"
    by (auto simp add: UCB_run_def UCB_init_def UCB_learn_def err_bind_Inr_iff)
  note p = init_props[OF i]
  from p have wf: "wf s" by simp
  have "wf s' \<and> nbandits s' = nbandits s \<and> narms s' = narms s \<and>
         (regret_inv s \<longrightarrow> regret_inv s') \<and>
         (\<forall>b<nbandits s. row_sum s' b = row_sum s b + real (narms s) + 2 * real (nat n)) \<and>
         length (regrets s') = length (regrets s) + nbandits s * narms s + nat n * nbandits s \<and>
         length (avg_reward s') = length (avg_reward s) + nbandits s + nat n"
    by (rule warm_learn_summary[OF l wf]) (rule UCB_one_step_Inr)
  with p show ?thesis by simp
qed

lemma Softmax_run_summary:
  assumes "Softmax_run env bandits arms t n = Inr s'"
  shows "wf s' \<and> nbandits s' = nat bandits \<and> narms s' = nat arms \<and> regret_inv s' \<and>
         (\<forall>b<nbandits s'. row_sum s' b = real (nat arms) + 2 * real (nat n)) \<and>
         length (regrets s') = 1 + nat bandits * nat arms + nat n * nat bandits \<and>
         length (avg_reward s') = nat bandits + nat n"
proof -
  from assms obtain s where i: "GaussianBandits_init env bandits arms (softmax_sel.fields t) = Inr s"
    and l: "err_bind (initial_run env s) (\<lambda>s1. learn_loop (Softmax_one_step env) [0..<nat n] s1) = Inr s'"
    by (auto simp add: Softmax_run_def Softmax_init_def Softmax_learn_def err_bind_Inr_iff)
  note p = init_props[OF i]
  from p have wf: "wf s" by simp
  have "wf s' \<and> nbandits s' = nbandits s \<and> narms s' = narms s \<and>
         (regret_inv s \<longrightarrow> regret_inv s') \<and>
         (\<forall>b<nbandits s. row_sum s' b = row_sum s b + real (narms s) + 2 * real (nat n)) \<and>
         length (regrets s') = length (regrets s) + nbandits s * narms s + nat n * nbandits s \<and>
         length (avg_reward s') = length (avg_reward s) + nbandits s + nat n"
    by (rule warm_learn_summary[OF l wf]) (rule Softmax_one_step_Inr)
  with p show ?thesis by simp
qed

subsection \<open>Small runs, evaluated\<close>

lemmas run_simps =
  EpsGreedy_run_def UCB_run_def Softmax_run_def EpsGreedy_init_def UCB_init_def Softmax_init_def
  GaussianBandits_init_def EpsGreedy_learn_def UCB_learn_def Softmax_learn_def
  EpsGreedy_one_step_def UCB_one_step_def Softmax_one_step_def
  EpsGreedy_decide_def UCB_decide_def Softmax_decide_def
  EpsGreedy_get_action_def UCB_get_action_def UCB_scores_def UCB_bonus_def
  np_broadcast_def np_log_def np_randint_def np_mean_def
  initial_run_def initial_visit_def apply_action_def update_then_incr_def
  counts_incr_def value_update_def get_reward_def update_regret_def mat_get_def mat_set_def
  epsgreedy.defs softmax_sel.defs upt_rec eval_nat_numeral

lemma eps_1x2_run: "EpsGreedy_run demo_rng 1 2 0 2 = Inr eps_1x2_after_2"
  by (simp add: run_simps demo_rng_def eps_1x2_after_2_def)

lemma ucb_1x1_init: "err_bind (UCB_init demo_rng 1 1) (initial_run demo_rng) = Inr ucb_1x1_after_0"
  by (simp add: run_simps demo_rng_def ucb_1x1_after_0_def)

lemma ucb_1x1_run: "UCB_run demo_rng 1 1 1 = Inr ucb_1x1_after_1"
  by (simp add: run_simps demo_rng_def ucb_1x1_after_1_def)

lemma ucb_2x1_run: "UCB_run demo_rng 2 1 1 = Inr ucb_2x1_after_1"
  by (simp add: run_simps demo_rng_def ucb_2x1_after_1_def)

lemma eps_sour_run: "EpsGreedy_run sour_rng 1 2 1 2 = Inr eps_sour"
  by (simp add: run_simps sour_rng_def eps_sour_def)

lemma ucb_sour_run: "UCB_run sour_rng 1 2 1 = Inr ucb_sour"
  by (simp add: run_simps sour_rng_def ucb_sour_def)

lemma softmax_sour_run: "Softmax_run sour_rng 1 2 1 1 = Inr softmax_sour"
  by (simp add: run_simps sour_rng_def softmax_sour_def Softmax_get_action_ok wf_def)

lemma ucb_1x3_run: "UCB_run demo_rng 1 3 0 = Inr ucb_1x3_after_0"
  by (simp add: run_simps demo_rng_def ucb_1x3_after_0_def)



subsection \<open>Runs that return\<close>

lemma learn_loop_total:
  assumes "I s"
    and "\<And>s1 i. I s1 \<Longrightarrow> \<exists>R s2. one_step s1 i = Inr (R, s2) \<and>
                      I (s2\<lparr>avg_reward := avg_reward s2 @ [np_mean R]\<rparr>)"
  shows "\<exists>s'. learn_loop one_step js s = Inr s' \<and> I s'"
  using assms(1)
proof (induction js arbitrary: s)
  case Nil
  then show ?case by simp
next
  case (Cons i js)
  from assms(2)[OF Cons.prems, of i] obtain R s2 where
    o: "one_step s i = Inr (R, s2)" and i: "I (s2\<lparr>avg_reward := avg_reward s2 @ [np_mean R]\<rparr>)"
    by blast
  from Cons.IH[OF i] o show ?case by simp
qed

lemma sweep_total:
  assumes wf: "wf s" "0 < narms s" "P s"
    and body: "\<And>s1 b. wf s1 \<Longrightarrow> b < nbandits s1 \<Longrightarrow> 0 < narms s1 \<Longrightarrow> P s1 \<Longrightarrow>
                 \<exists>r s2 a. body s1 b = Inr (r, s2) \<and> bumped k d s1 b a r s2 \<and> P s2"
  shows "\<exists>R s'. for_each body [0..<nbandits s] s [] = Inr (R, s') \<and> wf s' \<and>
           nbandits s' = nbandits s \<and> narms s' = narms s \<and> P s'"
proof -
  let ?I = "\<lambda>(ys::nat list) s1 (R1::real list).
              wf s1 \<and> nbandits s1 = nbandits s \<and> narms s1 = narms s \<and> P s1"
  have "\<exists>R s'. for_each body [0..<nbandits s] s [] = Inr (R, s') \<and> ?I [0..<nbandits s] s' R"
  proof (rule for_each_total[where I = ?I])
    show "?I [] s []" using wf by simp
  next
    fix ys x s1 R1
    assume i: "?I ys s1 R1" and x: "x \<in> set [0..<nbandits s]"
    from body[of s1 x] i x wf(2) obtain r s2 a where
      "body s1 x = Inr (r, s2)" "bumped k d s1 x a r s2" "P s2" by auto
    then show "\<exists>r s2. body s1 x = Inr (r, s2) \<and> ?I (ys @ [x]) s2 (R1 @ [r])"
      using i by (auto simp add: bumped_def)
  qed
  then show ?thesis by blast
qed

lemma EpsGreedy_learn_total:
  assumes "wf s" "0 < narms s"
  shows "\<exists>s'. EpsGreedy_learn env s n = Inr s'"
proof -
  let ?I = "\<lambda>s1. wf s1 \<and> 0 < narms s1"
  have "\<exists>s'. learn_loop (EpsGreedy_one_step env) [0..<nat n] s = Inr s' \<and> ?I s'"
  proof (rule learn_loop_total[where I = ?I])
    show "?I s" using assms by simp
  next
    fix s1 :: "'a epsgreedy_scheme" and i
    assume i: "?I s1"
    have "\<exists>R s'. for_each (EpsGreedy_decide env) [0..<nbandits s1] s1 [] = Inr (R, s') \<and> wf s' \<and>
           nbandits s' = nbandits s1 \<and> narms s' = narms s1 \<and> True"
    proof (rule sweep_total[where P = "\<lambda>_. True" and k = 1 and d = 1])
      fix s2 :: "'a epsgreedy_scheme" and b
      assume a: "wf s2" "b < nbandits s2" "0 < narms s2"
      from EpsGreedy_decide_total[OF a, of env] obtain r s3 where
        d: "EpsGreedy_decide env s2 b = Inr (r, s3)" by blast
      from EpsGreedy_decide_Inr[OF d a(1,2)] d
      show "\<exists>r s3 a. EpsGreedy_decide env s2 b = Inr (r, s3) \<and> bumped 1 1 s2 b a r s3 \<and> True"
        by blast
    qed (use i in simp_all)
    then show "\<exists>R s2. EpsGreedy_one_step env s1 i = Inr (R, s2) \<and>
                 ?I (s2\<lparr>avg_reward := avg_reward s2 @ [np_mean R]\<rparr>)"
      using i by (auto simp add: EpsGreedy_one_step_def)
  qed
  then show ?thesis by (auto simp add: EpsGreedy_learn_def)
qed

lemma UCB_learn_total:
  assumes "wf s" "0 < narms s"
  shows "\<exists>s'. UCB_learn env s n = Inr s'"
proof -
  from initial_run_ok[OF assms(1), of env] obtain s0 where
    i0: "initial_run env s = Inr s0" and p0: "wf s0" "narms s0 = narms s"
    by (auto simp add: progressed_def)
  let ?I = "\<lambda>s1. wf s1 \<and> 0 < narms s1"
  have "\<exists>s'. learn_loop (UCB_one_step env) [0..<nat n] s0 = Inr s' \<and> ?I s'"
  proof (rule learn_loop_total[where I = ?I])
    show "?I s0" using assms p0 by simp
  next
    fix s1 :: "'a bandit_scheme" and i
    assume i: "?I s1"
    have "\<exists>R s'. for_each (UCB_decide env i) [0..<nbandits s1] s1 [] = Inr (R, s') \<and> wf s' \<and>
           nbandits s' = nbandits s1 \<and> narms s' = narms s1 \<and> True"
    proof (rule sweep_total[where P = "\<lambda>_. True" and k = 2 and d = 2])
      fix s2 :: "'a bandit_scheme" and b
      assume a: "wf s2" "b < nbandits s2" "0 < narms s2"
      from UCB_decide_total[OF a, of env i] obtain r s3 where
        d: "UCB_decide env i s2 b = Inr (r, s3)" by blast
      from UCB_decide_Inr[OF d a(1,2)] d
      show "\<exists>r s3 a. UCB_decide env i s2 b = Inr (r, s3) \<and> bumped 2 2 s2 b a r s3 \<and> True"
        by blast
    qed (use i in simp_all)
    then show "\<exists>R s2. UCB_one_step env s1 i = Inr (R, s2) \<and>
                 ?I (s2\<lparr>avg_reward := avg_reward s2 @ [np_mean R]\<rparr>)"
      using i by (auto simp add: UCB_one_step_def)
  qed
  then show ?thesis using i0 by (auto simp add: UCB_learn_def)
qed

lemma Softmax_learn_total:
  assumes "wf s" "0 < narms s" "temp s \<noteq> 0"
  shows "\<exists>s'. Softmax_learn env s n = Inr s'"
proof -
  from initial_run_ok[OF assms(1), of env] obtain s0 where
    i0: "initial_run env s = Inr s0" and p0: "wf s0" "narms s0 = narms s"
      "bandit.more s0 = bandit.more s"
    by (auto simp add: progressed_def)
  let ?I = "\<lambda>s1. wf s1 \<and> 0 < narms s1 \<and> temp s1 \<noteq> 0"
  have t0: "temp s0 \<noteq> 0" using more_temp[OF p0(3)] assms(3) by simp
  have "\<exists>s'. learn_loop (Softmax_one_step env) [0..<nat n] s0 = Inr s' \<and> ?I s'"
  proof (rule learn_loop_total[where I = ?I])
    show "?I s0" using assms p0 t0 by simp
  next
    fix s1 :: "'a softmax_sel_scheme" and i
    assume i: "?I s1"
    have "\<exists>R s'. for_each (Softmax_decide env) [0..<nbandits s1] s1 [] = Inr (R, s') \<and> wf s' \<and>
           nbandits s' = nbandits s1 \<and> narms s' = narms s1 \<and> temp s' \<noteq> 0"
    proof (rule sweep_total[where P = "\<lambda>s. temp s \<noteq> 0" and k = 2 and d = 2])
      fix s2 :: "'a softmax_sel_scheme" and b
      assume a: "wf s2" "b < nbandits s2" "0 < narms s2" "temp s2 \<noteq> 0"
      from Softmax_decide_total[OF a, of env] obtain r s3 where
        d: "Softmax_decide env s2 b = Inr (r, s3)" by blast
      from Softmax_decide_Inr[OF d a(1,2)] obtain a' where b: "bumped 2 2 s2 b a' r s3" by blast
      then have "temp s3 = temp s2" by (intro more_temp) (simp add: bumped_def)
      with d b a(4)
      show "\<exists>r s3 a. Softmax_decide env s2 b = Inr (r, s3) \<and> bumped 2 2 s2 b a r s3 \<and> temp s3 \<noteq> 0"
        by auto
    qed (use i in simp_all)
    then show "\<exists>R s2. Softmax_one_step env s1 i = Inr (R, s2) \<and>
                 ?I (s2\<lparr>avg_reward := avg_reward s2 @ [np_mean R]\<rparr>)"
      using i by (auto simp add: Softmax_one_step_def)
  qed
  then show ?thesis using i0 by (auto simp add: Softmax_learn_def)
qed

text \<open>
  With at least one arm (and a non-zero temperature for Softmax), constructing a policy and
  calling \<open>learn\<close> returns a state, whatever the generator draws and whatever \<open>n\<close> is.
  This is a fact of the exact arithmetic used here: in float64 the exponential of Softmax
  overflows for large \<open>Q / temp\<close>, and \<open>np.random.choice\<close> then raises.
\<close>

lemma runs_return:
  assumes "0 \<le> bandits" "0 < arms"
  shows "\<exists>s'. EpsGreedy_run env bandits arms e n = Inr s'"
    and "\<exists>s'. UCB_run env bandits arms n = Inr s'"
    and "t \<noteq> 0 \<Longrightarrow> \<exists>s'. Softmax_run env bandits arms t n = Inr s'"
proof -
  obtain s1 where 1: "EpsGreedy_init env bandits arms e = Inr s1"
    using assms by (auto simp add: EpsGreedy_init_def GaussianBandits_init_def)
  note p1 = init_props[OF 1[unfolded EpsGreedy_init_def]]
  from EpsGreedy_learn_total[of s1 env n] p1 assms 1
  show "\<exists>s'. EpsGreedy_run env bandits arms e n = Inr s'"
    by (auto simp add: EpsGreedy_run_def)
  obtain s2 where 2: "UCB_init env bandits arms = Inr s2"
    using assms by (auto simp add: UCB_init_def GaussianBandits_init_def)
  note p2 = init_props[OF 2[unfolded UCB_init_def]]
  from UCB_learn_total[of s2 env n] p2 assms 2
  show "\<exists>s'. UCB_run env bandits arms n = Inr s'"
    by (auto simp add: UCB_run_def)
  assume t: "t \<noteq> 0"
  obtain s3 where 3: "Softmax_init env bandits arms t = Inr s3"
    using assms by (auto simp add: Softmax_init_def GaussianBandits_init_def)
  note p3 = init_props[OF 3[unfolded Softmax_init_def]]
  have "temp s3 = t" using p3 by (cases s3) (simp add: softmax_sel.defs)
  with Softmax_learn_total[of s3 env n] p3 assms 3 t
  show "\<exists>s'. Softmax_run env bandits arms t n = Inr s'"
    by (auto simp add: Softmax_run_def)
qed

subsection \<open>The incremental-mean rule\<close>


text \<open>The exponent search returns the binary exponent: \<open>2\<^sup>e \<le> x < 2\<^sup>e\<^sup>+\<^sup>1\<close>.\<close>

lemma pow2_powr: "pow2 e = 2 powr (real_of_int e)"
  by (simp add: pow2_def powr_int)

lemma pow2_pos: "0 < pow2 e"
  by (simp add: pow2_powr)

lemma pow2_succ: "pow2 (e + 1) = 2 * pow2 e"
  by (simp add: pow2_powr powr_add)

lemma pow2_pred: "pow2 (e - 1) = pow2 e / 2"
  using pow2_succ[of "e - 1"] by simp

lemma expo_bounds:
  "pow2 (- int n) \<le> x \<Longrightarrow> x < pow2 (int n) \<Longrightarrow>
   pow2 (expo n x) \<le> x \<and> x < pow2 (expo n x + 1)"
proof (induction n arbitrary: x)
  case 0
  then show ?case by (simp add: pow2_def)
next
  case (Suc n)
  have up: "pow2 (int (Suc n)) = 2 * pow2 (int n)"
    using pow2_succ[of "int n"] by (simp add: add.commute)
  have "- int (Suc n) = - int n - 1" by simp
  then have down: "pow2 (- int (Suc n)) = pow2 (- int n) / 2"
    using pow2_pred[of "- int n"] by (simp only:)
  consider "2 \<le> x" | "x < 1" | "1 \<le> x" "x < 2" by linarith
  then show ?case
  proof cases
    case 1
    have "pow2 (- int n) \<le> 1"
      using powr_mono[of "- real n" 0 2] by (simp add: pow2_powr)
    with 1 have "pow2 (- int n) \<le> x / 2" by simp
    moreover have "x / 2 < pow2 (int n)" using Suc.prems(2) up by simp
    ultimately have "pow2 (expo n (x / 2)) \<le> x / 2 \<and> x / 2 < pow2 (expo n (x / 2) + 1)"
      by (rule Suc.IH)
    then show ?thesis
      using 1 pow2_succ[of "expo n (x / 2)"] pow2_succ[of "expo n (x / 2) + 1"] by simp
  next
    case 2
    show ?thesis
    proof (cases n)
      case 0
      with 2 Suc.prems show ?thesis by (simp add: pow2_def)
    next
      case (Suc m)
      have "pow2 (int n) = 2 * pow2 (int m)"
        using pow2_succ[of "int m"] Suc by (simp add: add.commute)
      moreover have "1 \<le> pow2 (int m)" by (simp add: pow2_def)
      ultimately have "2 \<le> pow2 (int n)" by simp
      with 2 have "2 * x < pow2 (int n)" by simp
      moreover have "pow2 (- int n) \<le> 2 * x" using Suc.prems(1) down by simp
      ultimately have "pow2 (expo n (2 * x)) \<le> 2 * x \<and> 2 * x < pow2 (expo n (2 * x) + 1)"
        by (intro Suc.IH)
      then show ?thesis
        using 2 pow2_pred[of "expo n (2 * x)"] pow2_succ[of "expo n (2 * x)"] by simp
    qed
  next
    case 3
    then show ?thesis by (simp add: pow2_def)
  qed
qed

lemma expo_floor_log:
  assumes "pow2 (- int n) \<le> x" "x < pow2 (int n)"
  shows "expo n x = \<lfloor>log 2 x\<rfloor>"
proof -
  have x: "0 < x" using assms(1) pow2_pos[of "- int n"] by linarith
  from expo_bounds[OF assms] have "2 powr real_of_int (expo n x) \<le> x"
    "x < 2 powr (real_of_int (expo n x) + 1)"
    by (simp_all add: pow2_powr)
  then have "real_of_int (expo n x) \<le> log 2 x" "log 2 x < real_of_int (expo n x) + 1"
    using x by (simp_all add: le_log_iff log_less_iff)
  then show ?thesis by linarith
qed






subsection \<open>Counts after learning, regret sequence\<close>

text \<open>
  C1, as stated, fails: after \<open>UCB(1, 1).learn(1)\<close> the counts of the only bandit sum to 3,
  not to \<open>n + num_arms = 2\<close>.
\<close>

theorem counts_sum_after_learn_counterexample:
  "UCB_run demo_rng 1 1 1 = Inr ucb_1x1_after_1 \<and> (0::int) < 1 \<and> 0 < nbandits ucb_1x1_after_1 \<and>
   row_sum ucb_1x1_after_1 0 \<noteq> real_of_int 1 + real (narms ucb_1x1_after_1)"
  by (simp add: ucb_1x1_run) (simp add: ucb_1x1_after_1_def row_sum_def)

text \<open>
  C1, amended. For every positive \<open>n\<close>, after \<open>learn(n)\<close> the counts of each bandit sum,
  across its arms, to \<open>n\<close> for EpsGreedy and to \<open>2 * n + num_arms\<close> for UCB and Softmax
  (one count per initial-run visit, two per main-loop decision).
\<close>

theorem counts_sum_after_learn:
  assumes "0 < n"
  shows "(EpsGreedy_run env bandits arms e n = Inr s1 \<longrightarrow>
            (\<forall>b<nbandits s1. row_sum s1 b = real_of_int n)) \<and>
         (UCB_run env bandits arms n = Inr s2 \<longrightarrow>
            (\<forall>b<nbandits s2. row_sum s2 b = 2 * real_of_int n + real (narms s2))) \<and>
         (Softmax_run env bandits arms t n = Inr s3 \<longrightarrow>
            (\<forall>b<nbandits s3. row_sum s3 b = 2 * real_of_int n + real (narms s3)))"
proof -
  have n: "real (nat n) = real_of_int n" using assms by simp
  show ?thesis
    using EpsGreedy_run_summary[of env bandits arms e n s1] UCB_run_summary[of env bandits arms n s2]
      Softmax_run_summary[of env bandits arms t n s3]
    by (auto simp add: n)
qed

theorem counts_sum_after_learn_witness:
  "(0::int) < 2 \<and> EpsGreedy_run sour_rng 1 2 1 2 = Inr eps_sour \<and> 0 < nbandits eps_sour \<and>
   row_sum eps_sour 0 = real_of_int 2 \<and>
   (0::int) < 1 \<and> UCB_run sour_rng 1 2 1 = Inr ucb_sour \<and> 0 < nbandits ucb_sour \<and>
   row_sum ucb_sour 0 = 2 * real_of_int 1 + real (narms ucb_sour) \<and>
   Softmax_run sour_rng 1 2 1 1 = Inr softmax_sour \<and> 0 < nbandits softmax_sour \<and>
   row_sum softmax_sour 0 = 2 * real_of_int 1 + real (narms softmax_sour)"
proof -
  have b: "0 < nbandits eps_sour" "0 < nbandits ucb_sour" "0 < nbandits softmax_sour"
    by (simp_all add: eps_sour_def ucb_sour_def softmax_sour_def)
  have "row_sum eps_sour 0 = real_of_int 2"
    using counts_sum_after_learn[where n = 2 and env = sour_rng and bandits = 1 and arms = 2
        and e = 1 and ?s1.0 = eps_sour] eps_sour_run b by simp
  moreover have "row_sum ucb_sour 0 = 2 * real_of_int 1 + real (narms ucb_sour)"
    using counts_sum_after_learn[where n = 1 and env = sour_rng and bandits = 1 and arms = 2
        and ?s2.0 = ucb_sour] ucb_sour_run b by simp
  moreover have "row_sum softmax_sour 0 = 2 * real_of_int 1 + real (narms softmax_sour)"
    using counts_sum_after_learn[where n = 1 and env = sour_rng and bandits = 1 and arms = 2
        and t = 1 and ?s3.0 = softmax_sour] softmax_sour_run b by simp
  ultimately show ?thesis using b eps_sour_run ucb_sour_run softmax_sour_run by simp
qed

text \<open>
  C7. For the three policies and every run of \<open>learn\<close> that returns, the regret sequence
  is non-decreasing and non-negative at every index.
\<close>

theorem regrets_sorted_nonneg:
  "(EpsGreedy_run env bandits arms e n = Inr s1 \<longrightarrow>
      sorted (regrets s1) \<and> list_all (\<lambda>x. 0 \<le> x) (regrets s1)) \<and>
   (UCB_run env bandits arms n = Inr s2 \<longrightarrow>
      sorted (regrets s2) \<and> list_all (\<lambda>x. 0 \<le> x) (regrets s2)) \<and>
   (Softmax_run env bandits arms t n = Inr s3 \<longrightarrow>
      sorted (regrets s3) \<and> list_all (\<lambda>x. 0 \<le> x) (regrets s3))"
  using EpsGreedy_run_summary[of env bandits arms e n s1] UCB_run_summary[of env bandits arms n s2]
    Softmax_run_summary[of env bandits arms t n s3]
  by (auto simp add: regret_inv_def list_all_iff)

theorem regrets_sorted_nonneg_witness:
  "EpsGreedy_run sour_rng 1 2 1 2 = Inr eps_sour \<and>
   sorted (regrets eps_sour) \<and> list_all (\<lambda>x. 0 \<le> x) (regrets eps_sour) \<and>
   UCB_run sour_rng 1 2 1 = Inr ucb_sour \<and>
   sorted (regrets ucb_sour) \<and> list_all (\<lambda>x. 0 \<le> x) (regrets ucb_sour) \<and>
   Softmax_run sour_rng 1 2 1 1 = Inr softmax_sour \<and>
   sorted (regrets softmax_sour) \<and> list_all (\<lambda>x. 0 \<le> x) (regrets softmax_sour)"
  using regrets_sorted_nonneg[where env = sour_rng and bandits = 1 and arms = 2 and e = 1 and n = 2
      and ?s1.0 = eps_sour]
    regrets_sorted_nonneg[where env = sour_rng and bandits = 1 and arms = 2 and n = 1
      and ?s2.0 = ucb_sour and t = 1 and ?s3.0 = softmax_sour]
    eps_sour_run ucb_sour_run softmax_sour_run
  by simp

subsection \<open>UCB(1, 3) after the initial run\<close>

text \<open>
  C3, as stated, fails: after \<open>UCB(1, 3).learn(0)\<close> the counts are \<open>[[1, 1, 1]]\<close> but the
  regret sequence has 4 entries, not 3.
\<close>

theorem ucb_1x3_regrets_counterexample:
  "UCB_run demo_rng 1 3 0 = Inr ucb_1x3_after_0 \<and> counts ucb_1x3_after_0 = [[1, 1, 1]] \<and>
   length (regrets ucb_1x3_after_0) \<noteq> 3"
  by (simp add: ucb_1x3_run) (simp add: ucb_1x3_after_0_def)

text \<open>
  C3, amended. Whatever the generator draws, \<open>UCB(1, 3).learn(0)\<close> returns with the counts
  equal to \<open>[[1, 1, 1]]\<close> and a regret sequence of exactly 4 entries: the initial 0.0 of
  the constructor followed by one entry per initial-run visit.
\<close>

theorem ucb_1x3_after_initial_run:
  "map_sum id counts (UCB_run env 1 3 0) = Inr [[1, 1, 1]] \<and>
   map_sum id (length \<circ> regrets) (UCB_run env 1 3 0) = Inr 4 \<and>
   map_sum id (hd \<circ> regrets) (UCB_run env 1 3 0) = Inr 0"
  by (simp add: run_simps)

subsection \<open>Configuration is not validated\<close>

lemma err_bind_Inr_id: "err_bind m Inr = m"
  by (cases m) simp_all

text \<open>
  C9, as stated, fails: \<open>EpsGreedy(0, 0, 0.05)\<close> is constructed without error and its
  \<open>learn(0)\<close> returns without error; \<open>SoftmaxActionSelection(1, 1, 0)\<close> is constructed,
  and \<open>UCB(1, 1).learn(0)\<close> returns, without error.
\<close>

theorem no_fail_fast_counterexample:
  "\<not> isl (EpsGreedy_init demo_rng 0 0 (1 / 20)) \<and> \<not> isl (EpsGreedy_run demo_rng 0 0 (1 / 20) 0) \<and>
   \<not> isl (Softmax_init demo_rng 1 1 0) \<and> \<not> isl (UCB_run demo_rng 1 1 0)"
  by (simp add: run_simps)

text \<open>
  C9, amended. The module validates nothing. Construction fails exactly when
  \<open>num_bandits\<close> or \<open>num_arms\<close> is negative (numpy's ValueError for a negative dimension)
  and succeeds when they are zero; Softmax accepts every temperature; \<open>learn\<close> with a
  non-positive \<open>n_timesteps\<close> returns without running the main loop: EpsGreedy leaves
  the state unchanged, UCB and Softmax do their initial run only.
\<close>

theorem configuration_not_validated:
  "(isl (EpsGreedy_init env bandits arms e) \<longleftrightarrow> bandits < 0 \<or> arms < 0) \<and>
   (isl (UCB_init env bandits arms) \<longleftrightarrow> bandits < 0 \<or> arms < 0) \<and>
   (isl (Softmax_init env bandits arms t) \<longleftrightarrow> bandits < 0 \<or> arms < 0) \<and>
   (n \<le> 0 \<longrightarrow> EpsGreedy_learn env s1 n = Inr s1) \<and>
   (n \<le> 0 \<longrightarrow> UCB_learn env s2 n = initial_run env s2) \<and>
   (n \<le> 0 \<longrightarrow> Softmax_learn env s3 n = initial_run env s3)"
  by (simp add: EpsGreedy_init_def UCB_init_def Softmax_init_def GaussianBandits_init_def
      EpsGreedy_learn_def UCB_learn_def Softmax_learn_def err_bind_Inr_id)

theorem configuration_not_validated_witness:
  "(- 5 :: int) \<le> 0 \<and> EpsGreedy_learn sour_rng eps_sour (- 5) = Inr eps_sour \<and>
   UCB_learn sour_rng ucb_sour (- 5) = initial_run sour_rng ucb_sour \<and>
   Softmax_learn sour_rng softmax_sour (- 5) = initial_run sour_rng softmax_sour \<and>
   \<not> isl (EpsGreedy_init sour_rng 0 0 1) \<and> isl (EpsGreedy_init sour_rng (- 1) 2 1)"
  using configuration_not_validated[where n = "- 5" and env = sour_rng and ?s1.0 = eps_sour
      and ?s2.0 = ucb_sour and ?s3.0 = softmax_sour and bandits = 0 and arms = 0 and e = 1
      and t = 1]
    configuration_not_validated[where n = "- 5" and env = sour_rng and ?s1.0 = eps_sour
      and ?s2.0 = ucb_sour and ?s3.0 = softmax_sour and bandits = "- 1" and arms = 2 and e = 1
      and t = 1]
  by simp

subsection \<open>The double increment of UCB and Softmax\<close>




subsection \<open>The timestep passed to UCB's confidence term\<close>


subsection \<open>EpsGreedy without exploration\<close>

text \<open>
  C8. With \<open>epsilon = 0\<close> (and the uniform draw in \<open>[0, 1)\<close>), \<open>get_action\<close> on a non-empty
  row never fails and never takes the exploration branch: it takes one draw from the
  generator and returns the first index of the maximum of \<open>Q[bandit, :]\<close>; hence whenever
  the estimate of one arm strictly exceeds all the others, that arm is returned.
\<close>

theorem eps_zero_is_greedy:
  assumes "rng_ok env" "eps s = 0" "b < length (Q s)" "Q s ! b \<noteq> []"
  shows "\<exists>a. EpsGreedy_get_action env s b = Inr (a, s\<lparr>tick := Suc (tick s)\<rparr>) \<and>
             first_argmax (Q s ! b) a \<and>
             (\<forall>k<length (Q s ! b).
                 (\<forall>j<length (Q s ! b). j \<noteq> k \<longrightarrow> Q s ! b ! j < Q s ! b ! k) \<longrightarrow> a = k)"
proof -
  from np_argmax_first[OF assms(4)] obtain a where
    a: "np_argmax (map Fin (Q s ! b)) = Inr a" "first_argmax (Q s ! b) a"
    by blast
  have "\<not> random_draw env (tick s) < eps s"
    using assms(1,2) by (simp add: rng_ok_def not_less)
  then have "EpsGreedy_get_action env s b = Inr (a, s\<lparr>tick := Suc (tick s)\<rparr>)"
    using assms(3) a(1) by (simp add: EpsGreedy_get_action_def Let_def)
  moreover have "a = k" if "k < length (Q s ! b)"
    "\<forall>j<length (Q s ! b). j \<noteq> k \<longrightarrow> Q s ! b ! j < Q s ! b ! k" for k
    using first_argmax_unique[OF a(2) first_argmax_dominant[OF that]] .
  ultimately show ?thesis using a(2) by blast
qed

theorem eps_zero_is_greedy_witness:
  "EpsGreedy_run demo_rng 1 2 0 2 = Inr eps_1x2_after_2 \<and>
   rng_ok demo_rng \<and> eps eps_1x2_after_2 = 0 \<and> 0 < length (Q eps_1x2_after_2) \<and>
   Q eps_1x2_after_2 ! 0 \<noteq> [] \<and> Q eps_1x2_after_2 ! 0 ! 1 < Q eps_1x2_after_2 ! 0 ! 0 \<and>
   EpsGreedy_get_action demo_rng eps_1x2_after_2 0 =
     Inr (0, eps_1x2_after_2\<lparr>tick := Suc (tick eps_1x2_after_2)\<rparr>)"
proof -
  have h: "rng_ok demo_rng" "eps eps_1x2_after_2 = 0" "0 < length (Q eps_1x2_after_2)"
    "Q eps_1x2_after_2 ! 0 \<noteq> []"
    by (simp_all add: rng_ok_def demo_rng_def eps_1x2_after_2_def)
  have q: "Q eps_1x2_after_2 ! 0 = [1, 0]" by (simp add: eps_1x2_after_2_def)
  from eps_zero_is_greedy[OF h] obtain a where
    a: "EpsGreedy_get_action demo_rng eps_1x2_after_2 0 =
          Inr (a, eps_1x2_after_2\<lparr>tick := Suc (tick eps_1x2_after_2)\<rparr>)"
    and d: "\<forall>k<length (Q eps_1x2_after_2 ! 0).
                 (\<forall>j<length (Q eps_1x2_after_2 ! 0). j \<noteq> k \<longrightarrow>
                    Q eps_1x2_after_2 ! 0 ! j < Q eps_1x2_after_2 ! 0 ! k) \<longrightarrow> a = k"
    by blast
  from d have "a = 0" unfolding q by (auto simp add: less_Suc_eq eval_nat_numeral)
  with a h q eps_1x2_run show ?thesis by simp
qed

subsection \<open>The estimates after the initial run\<close>

lemma initial_arms:
  assumes "wf s" "b < nbandits s" "k \<le> narms s"
    "\<forall>a<narms s. Q s ! b ! a = 0 \<and> counts s ! b ! a = 0"
  shows "\<exists>R s'. for_each (initial_visit env b) [0..<k] s [] = Inr (R, s') \<and> wf s' \<and>
     nbandits s' = nbandits s \<and> narms s' = narms s \<and> rewards s' = rewards s \<and>
     tick s' = tick s + k \<and>
     (\<forall>a<narms s. Q s' ! b ! a =
          (if a < k then (rewards s ! b ! a + normal_draw env (tick s + a)) / 2 else 0) \<and>
        counts s' ! b ! a = (if a < k then 1 else 0)) \<and>
     (\<forall>b'<nbandits s. b' \<noteq> b \<longrightarrow> Q s' ! b' = Q s ! b' \<and> counts s' ! b' = counts s ! b')"
  using assms(3)
proof (induction k)
  case 0
  then show ?case using assms by simp
next
  case (Suc k)
  then have "k \<le> narms s" and k: "k < narms s" by simp_all
  from Suc.IH[OF this(1)] obtain R1 s1 where
    run1: "for_each (initial_visit env b) [0..<k] s [] = Inr (R1, s1)"
    and p: "wf s1" "nbandits s1 = nbandits s" "narms s1 = narms s" "rewards s1 = rewards s"
      "tick s1 = tick s + k"
    and q: "\<forall>a<narms s. Q s1 ! b ! a =
          (if a < k then (rewards s ! b ! a + normal_draw env (tick s + a)) / 2 else 0) \<and>
        counts s1 ! b ! a = (if a < k then 1 else 0)"
    and o: "\<forall>b'<nbandits s. b' \<noteq> b \<longrightarrow> Q s1 ! b' = Q s ! b' \<and> counts s1 ! b' = counts s ! b'"
    by blast
  let ?r = "rewards s ! b ! k + normal_draw env (tick s + k)"
  from initial_visit_ok[of s1 b k env] p assms(2) k obtain s2 where
    v: "initial_visit env b s1 k = Inr (?r, s2)" "tick s2 = Suc (tick s1)" "bumped 1 2 s1 b k ?r s2"
    by auto
  have l: "b < length (Q s1)" "k < length (Q s1 ! b)" "b < length (counts s1)" "k < length (counts s1 ! b)"
    using p assms(2) k by (simp_all add: wf_lengths wf_rows)
  have zero: "Q s1 ! b ! k = 0" "counts s1 ! b ! k = 0" using q k by simp_all
  have Q2: "Q s2 = mat_set (Q s1) b k (?r / 2)" and c2: "counts s2 = mat_set (counts s1) b k 1"
    using v(3) zero by (simp_all add: bumped_def)
  have run2: "for_each (initial_visit env b) [0..<Suc k] s [] = Inr (R1 @ [?r], s2)"
    using run1 v(1) by (simp add: for_each_append)
  have "\<forall>a<narms s. Q s2 ! b ! a =
          (if a < Suc k then (rewards s ! b ! a + normal_draw env (tick s + a)) / 2 else 0) \<and>
        counts s2 ! b ! a = (if a < Suc k then 1 else 0)"
    using q l by (auto simp add: Q2 c2 mat_set_nth less_Suc_eq)
  moreover have "\<forall>b'<nbandits s. b' \<noteq> b \<longrightarrow> Q s2 ! b' = Q s ! b' \<and> counts s2 ! b' = counts s ! b'"
    using o by (simp add: Q2 c2 mat_set_row_other)
  moreover have "wf s2" "nbandits s2 = nbandits s" "narms s2 = narms s" "rewards s2 = rewards s"
    using v(3) p by (simp_all add: bumped_def)
  ultimately show ?case using run2 v(2) p(5) by simp
qed

lemma initial_bandits:
  assumes "wf s" "kb \<le> nbandits s"
    "\<forall>b<nbandits s. \<forall>a<narms s. Q s ! b ! a = 0 \<and> counts s ! b ! a = 0"
  shows "\<exists>s'. initial_run_loop env [0..<kb] s = Inr s' \<and> wf s' \<and>
     nbandits s' = nbandits s \<and> narms s' = narms s \<and> rewards s' = rewards s \<and>
     tick s' = tick s + kb * narms s \<and>
     (\<forall>b<nbandits s. \<forall>a<narms s. Q s' ! b ! a =
          (if b < kb then (rewards s ! b ! a + normal_draw env (tick s + b * narms s + a)) / 2 else 0) \<and>
        counts s' ! b ! a = (if b < kb then 1 else 0))"
  using assms(2)
proof (induction kb)
  case 0
  then show ?case using assms by simp
next
  case (Suc kb)
  then have "kb \<le> nbandits s" and kb: "kb < nbandits s" by simp_all
  from Suc.IH[OF this(1)] obtain s1 where
    run1: "initial_run_loop env [0..<kb] s = Inr s1"
    and p: "wf s1" "nbandits s1 = nbandits s" "narms s1 = narms s" "rewards s1 = rewards s"
      "tick s1 = tick s + kb * narms s"
    and q: "\<forall>b<nbandits s. \<forall>a<narms s. Q s1 ! b ! a =
          (if b < kb then (rewards s ! b ! a + normal_draw env (tick s + b * narms s + a)) / 2 else 0) \<and>
        counts s1 ! b ! a = (if b < kb then 1 else 0)"
    by blast
  have z: "\<forall>a<narms s1. Q s1 ! kb ! a = 0 \<and> counts s1 ! kb ! a = 0"
    using q kb p by simp
  from initial_arms[OF p(1) _ _ z, of "narms s1" env] kb p obtain R s2 where
    run2: "for_each (initial_visit env kb) [0..<narms s1] s1 [] = Inr (R, s2)"
    and p2: "wf s2" "nbandits s2 = nbandits s" "narms s2 = narms s" "rewards s2 = rewards s"
      "tick s2 = tick s1 + narms s"
    and q2: "\<forall>a<narms s. Q s2 ! kb ! a = (rewards s ! kb ! a + normal_draw env (tick s1 + a)) / 2 \<and>
        counts s2 ! kb ! a = 1"
    and o2: "\<forall>b'<nbandits s. b' \<noteq> kb \<longrightarrow> Q s2 ! b' = Q s1 ! b' \<and> counts s2 ! b' = counts s1 ! b'"
    by auto
  let ?s3 = "s2\<lparr>avg_reward := avg_reward s2 @ [np_mean R]\<rparr>"
  have run3: "initial_run_loop env [0..<Suc kb] s = Inr ?s3"
    using run1 run2 by (simp add: initial_run_loop_append)
  have "\<forall>b<nbandits s. \<forall>a<narms s. Q ?s3 ! b ! a =
          (if b < Suc kb then (rewards s ! b ! a + normal_draw env (tick s + b * narms s + a)) / 2 else 0) \<and>
        counts ?s3 ! b ! a = (if b < Suc kb then 1 else 0)"
  proof (intro allI impI)
    fix b a assume b: "b < nbandits s" and a: "a < narms s"
    show "Q ?s3 ! b ! a =
          (if b < Suc kb then (rewards s ! b ! a + normal_draw env (tick s + b * narms s + a)) / 2 else 0) \<and>
        counts ?s3 ! b ! a = (if b < Suc kb then 1 else 0)"
    proof (cases "b = kb")
      case True
      then show ?thesis using q2 a p(5) by simp
    next
      case False
      then show ?thesis using o2 q b a by (auto simp add: less_Suc_eq)
    qed
  qed
  then show ?case using run3 p2 p(5) by (simp add: algebra_simps)
qed

lemma init_zero:
  assumes "GaussianBandits_init env bandits arms ext = Inr s"
  shows "\<forall>b<nbandits s. \<forall>a<narms s. Q s ! b ! a = 0 \<and> counts s ! b ! a = 0 \<and>
           rewards s ! b ! a = mean_draw env b a"
  using assms by (auto simp add: GaussianBandits_init_def split: if_splits)

lemma initial_run_fresh:
  assumes "GaussianBandits_init env bandits arms ext = Inr s"
  shows "\<exists>s'. initial_run env s = Inr s' \<and>
           (\<forall>b<nbandits s. \<forall>a<narms s.
               Q s' ! b ! a = (mean_draw env b a + normal_draw env (b * narms s + a)) / 2 \<and>
               counts s' ! b ! a = 1)"
proof -
  note p = init_props[OF assms] and z = init_zero[OF assms]
  from p have wf: "wf s" and t: "tick s = 0" by simp_all
  from z have z': "\<forall>b<nbandits s. \<forall>a<narms s. Q s ! b ! a = 0 \<and> counts s ! b ! a = 0" by simp
  from initial_bandits[OF wf _ z', of "nbandits s" env] z t show ?thesis
    by (auto simp add: initial_run_def)
qed

lemma fresh_1x1_init: "UCB_init demo_rng 1 1 = Inr fresh_1x1"
  by (simp add: run_simps demo_rng_def fresh_1x1_def)

lemma fresh_1x1_initial_run: "initial_run demo_rng fresh_1x1 = Inr ucb_1x1_after_0"
  using ucb_1x1_init by (simp add: fresh_1x1_init)

lemma softmax_fresh_1x1_init: "Softmax_init demo_rng 1 1 1 = Inr softmax_fresh_1x1"
  by (simp add: run_simps demo_rng_def softmax_fresh_1x1_def)

lemma softmax_fresh_1x1_initial_run: "initial_run demo_rng softmax_fresh_1x1 = Inr softmax_1x1_after_0"
  by (simp add: run_simps demo_rng_def softmax_fresh_1x1_def softmax_1x1_after_0_def)

text \<open>
  C10. After the constructor of UCB or of Softmax, \<open>initial_run\<close> always returns, and
  immediately afterwards, for every bandit \<open>b\<close> and arm \<open>a\<close>, \<open>counts[b, a]\<close> is 1 and
  \<open>Q[b, a]\<close> is half of the reward drawn at the visit of that arm (the true mean of the
  arm plus the noise of draw number \<open>b * num_arms + a\<close>), not that reward itself: the
  counter is bumped before the update, which therefore divides by 2.
\<close>

theorem initial_run_halves_first_reward:
  "(UCB_init env bandits arms = Inr s \<longrightarrow>
      (\<exists>s'. initial_run env s = Inr s' \<and>
         (\<forall>b<nbandits s. \<forall>a<narms s.
             Q s' ! b ! a = (mean_draw env b a + normal_draw env (b * narms s + a)) / 2 \<and>
             counts s' ! b ! a = 1))) \<and>
   (Softmax_init env bandits arms t = Inr u \<longrightarrow>
      (\<exists>u'. initial_run env u = Inr u' \<and>
         (\<forall>b<nbandits u. \<forall>a<narms u.
             Q u' ! b ! a = (mean_draw env b a + normal_draw env (b * narms u + a)) / 2 \<and>
             counts u' ! b ! a = 1)))"
  using initial_run_fresh[of env bandits arms "()" s]
    initial_run_fresh[of env bandits arms "softmax_sel.fields t" u]
  by (simp add: UCB_init_def Softmax_init_def)

theorem initial_run_halves_first_reward_witness:
  "UCB_init demo_rng 1 1 = Inr fresh_1x1 \<and> initial_run demo_rng fresh_1x1 = Inr ucb_1x1_after_0 \<and>
   Q ucb_1x1_after_0 ! 0 ! 0 =
     (mean_draw demo_rng 0 0 + normal_draw demo_rng (0 * narms fresh_1x1 + 0)) / 2 \<and>
   counts ucb_1x1_after_0 ! 0 ! 0 = 1 \<and>
   Softmax_init demo_rng 1 1 1 = Inr softmax_fresh_1x1 \<and>
   initial_run demo_rng softmax_fresh_1x1 = Inr softmax_1x1_after_0 \<and>
   Q softmax_1x1_after_0 ! 0 ! 0 =
     (mean_draw demo_rng 0 0 + normal_draw demo_rng (0 * narms softmax_fresh_1x1 + 0)) / 2 \<and>
   counts softmax_1x1_after_0 ! 0 ! 0 = 1"
proof -
  have d: "0 < nbandits fresh_1x1" "0 < narms fresh_1x1"
    "0 < nbandits softmax_fresh_1x1" "0 < narms softmax_fresh_1x1"
    by (simp_all add: fresh_1x1_def softmax_fresh_1x1_def)
  from initial_run_halves_first_reward[where env = demo_rng and bandits = 1 and arms = 1
      and s = fresh_1x1 and t = 1 and u = softmax_fresh_1x1]
    fresh_1x1_init fresh_1x1_initial_run softmax_fresh_1x1_init softmax_fresh_1x1_initial_run d
  show ?thesis by simp
qed

subsection \<open>The average-reward trajectory\<close>

lemma learn_loop_avg:
  assumes "learn_loop one_step js s = Inr s'" "wf s"
    and step: "\<And>s1 i R s2. wf s1 \<Longrightarrow> one_step s1 i = Inr (R, s2) \<Longrightarrow>
                 progressed k [0..<nbandits s1] s1 s2 \<and> avg_reward s2 = avg_reward s1 \<and>
                 length R = nbandits s1"
  shows "avg_reward s' = avg_reward s @ map np_mean (learn_rewards one_step js s) \<and>
         length (learn_rewards one_step js s) = length js \<and>
         list_all (\<lambda>R. length R = nbandits s) (learn_rewards one_step js s)"
  using assms(1,2)
proof (induction js arbitrary: s)
  case Nil
  then show ?case by simp
next
  case (Cons i js)
  from Cons.prems(1) obtain R s1 where o: "one_step s i = Inr (R, s1)"
    and l: "learn_loop one_step js (s1\<lparr>avg_reward := avg_reward s1 @ [np_mean R]\<rparr>) = Inr s'"
    by (auto simp add: err_bind_Inr_iff)
  from step[OF Cons.prems(2) o] have st: "progressed k [0..<nbandits s] s s1"
    "avg_reward s1 = avg_reward s" "length R = nbandits s" by simp_all
  then have w: "wf (s1\<lparr>avg_reward := avg_reward s1 @ [np_mean R]\<rparr>)" "nbandits s1 = nbandits s"
    by (simp_all add: progressed_def)
  from Cons.IH[OF l w(1)] o st w(2) show ?case by simp
qed

lemma initial_run_loop_avg:
  assumes "initial_run_loop env bs s = Inr s'" "wf s" "list_all (\<lambda>b. b < nbandits s) bs"
  shows "avg_reward s' = avg_reward s @ map np_mean (initial_rewards env bs s) \<and>
         length (initial_rewards env bs s) = length bs \<and>
         list_all (\<lambda>R. length R = narms s) (initial_rewards env bs s)"
  using assms
proof (induction bs arbitrary: s)
  case Nil
  then show ?case by simp
next
  case (Cons b bs)
  from Cons.prems(1) obtain R s1 where o: "for_each (initial_visit env b) [0..<narms s] s [] = Inr (R, s1)"
    and l: "initial_run_loop env bs (s1\<lparr>avg_reward := avg_reward s1 @ [np_mean R]\<rparr>) = Inr s'"
    by (auto simp add: err_bind_Inr_iff)
  from initial_sweep[of s b env] Cons.prems(2,3) o have st: "progressed 1 (replicate (narms s) b) s s1"
    "avg_reward s1 = avg_reward s" "length R = narms s" by simp_all
  then have w: "wf (s1\<lparr>avg_reward := avg_reward s1 @ [np_mean R]\<rparr>)" "nbandits s1 = nbandits s"
    "narms s1 = narms s"
    by (simp_all add: progressed_def)
  have "list_all (\<lambda>b. b < nbandits (s1\<lparr>avg_reward := avg_reward s1 @ [np_mean R]\<rparr>)) bs"
    using Cons.prems(3) w(2) by simp
  from Cons.IH[OF l w(1) this] o st w(2,3) show ?case by simp
qed

lemma warm_avg:
  assumes run: "err_bind (initial_run env s) (\<lambda>s1. learn_loop one_step [0..<m] s1) = Inr s'"
    and wf: "wf s" and e: "avg_reward s = []"
    and step: "\<And>s1 i R s2. wf s1 \<Longrightarrow> one_step s1 i = Inr (R, s2) \<Longrightarrow>
                 progressed k [0..<nbandits s1] s1 s2 \<and> avg_reward s2 = avg_reward s1 \<and>
                 length R = nbandits s1"
  shows "\<exists>s1. initial_run env s = Inr s1 \<and>
           avg_reward s' = map np_mean (initial_rewards env [0..<nbandits s] s) @
                           map np_mean (learn_rewards one_step [0..<m] s1) \<and>
           length (initial_rewards env [0..<nbandits s] s) = nbandits s \<and>
           list_all (\<lambda>R. length R = narms s) (initial_rewards env [0..<nbandits s] s) \<and>
           length (learn_rewards one_step [0..<m] s1) = m \<and>
           list_all (\<lambda>R. length R = nbandits s) (learn_rewards one_step [0..<m] s1)"
proof -
  from run obtain s1 where i: "initial_run env s = Inr s1" and l: "learn_loop one_step [0..<m] s1 = Inr s'"
    by (auto simp add: err_bind_Inr_iff)
  from initial_run_ok[OF wf, of env] i have p: "wf s1" "nbandits s1 = nbandits s"
    by (auto simp add: progressed_def)
  have a: "avg_reward s1 = avg_reward s @ map np_mean (initial_rewards env [0..<nbandits s] s) \<and>
         length (initial_rewards env [0..<nbandits s] s) = length [0..<nbandits s] \<and>
         list_all (\<lambda>R. length R = narms s) (initial_rewards env [0..<nbandits s] s)"
    by (rule initial_run_loop_avg[OF i[unfolded initial_run_def] wf]) (simp add: list_all_iff)
  have b: "avg_reward s' = avg_reward s1 @ map np_mean (learn_rewards one_step [0..<m] s1) \<and>
         length (learn_rewards one_step [0..<m] s1) = length [0..<m] \<and>
         list_all (\<lambda>R. length R = nbandits s1) (learn_rewards one_step [0..<m] s1)"
    by (rule learn_loop_avg[OF l p(1)]) (rule step)
  from a b i e p show ?thesis by simp
qed

text \<open>
  C4, as stated, fails: \<open>UCB(2, 1).learn(1)\<close> completes one timestep and leaves three
  entries in \<open>avg_reward\<close> (one per bandit from the initial run, one from the timestep).
\<close>

theorem avg_reward_per_timestep_counterexample:
  "UCB_run demo_rng 2 1 1 = Inr ucb_2x1_after_1 \<and> length (avg_reward ucb_2x1_after_1) \<noteq> nat 1"
  by (simp add: ucb_2x1_run) (simp add: ucb_2x1_after_1_def)

text \<open>
  C4, amended. For EpsGreedy, a completed \<open>learn(n)\<close> leaves exactly one entry per timestep
  in \<open>avg_reward\<close>, the \<open>np.mean\<close> of the rewards of that timestep, one per bandit. For UCB
  and Softmax, \<open>initial_run\<close> first appends one entry per bandit, the \<open>np.mean\<close> of the
  rewards of that bandit's arms, and the main loop then appends one entry per timestep,
  the \<open>np.mean\<close> of that timestep's rewards, one per bandit: \<open>num_bandits + n\<close> entries.
\<close>

theorem avg_reward_entries:
  "(EpsGreedy_run env bandits arms e n = Inr s' \<longrightarrow>
      (\<exists>s. EpsGreedy_init env bandits arms e = Inr s \<and>
         avg_reward s' = map np_mean (learn_rewards (EpsGreedy_one_step env) [0..<nat n] s) \<and>
         list_all (\<lambda>R. length R = nbandits s') (learn_rewards (EpsGreedy_one_step env) [0..<nat n] s) \<and>
         length (avg_reward s') = nat n)) \<and>
   (UCB_run env bandits arms n = Inr u' \<longrightarrow>
      (\<exists>u u1. UCB_init env bandits arms = Inr u \<and> initial_run env u = Inr u1 \<and>
         avg_reward u' = map np_mean (initial_rewards env [0..<nbandits u] u) @
                         map np_mean (learn_rewards (UCB_one_step env) [0..<nat n] u1) \<and>
         length (initial_rewards env [0..<nbandits u] u) = nbandits u' \<and>
         list_all (\<lambda>R. length R = narms u') (initial_rewards env [0..<nbandits u] u) \<and>
         list_all (\<lambda>R. length R = nbandits u') (learn_rewards (UCB_one_step env) [0..<nat n] u1) \<and>
         length (avg_reward u') = nbandits u' + nat n)) \<and>
   (Softmax_run env bandits arms t n = Inr v' \<longrightarrow>
      (\<exists>v v1. Softmax_init env bandits arms t = Inr v \<and> initial_run env v = Inr v1 \<and>
         avg_reward v' = map np_mean (initial_rewards env [0..<nbandits v] v) @
                         map np_mean (learn_rewards (Softmax_one_step env) [0..<nat n] v1) \<and>
         length (initial_rewards env [0..<nbandits v] v) = nbandits v' \<and>
         list_all (\<lambda>R. length R = narms v') (initial_rewards env [0..<nbandits v] v) \<and>
         list_all (\<lambda>R. length R = nbandits v') (learn_rewards (Softmax_one_step env) [0..<nat n] v1) \<and>
         length (avg_reward v') = nbandits v' + nat n))"
proof (intro conjI impI)
  assume run: "EpsGreedy_run env bandits arms e n = Inr s'"
  then obtain s where i: "EpsGreedy_init env bandits arms e = Inr s"
    and l: "learn_loop (EpsGreedy_one_step env) [0..<nat n] s = Inr s'"
    by (auto simp add: EpsGreedy_run_def EpsGreedy_learn_def err_bind_Inr_iff)
  note p = init_props[OF i[unfolded EpsGreedy_init_def]]
  from p have wf: "wf s" by simp
  have "avg_reward s' = avg_reward s @ map np_mean (learn_rewards (EpsGreedy_one_step env) [0..<nat n] s) \<and>
         length (learn_rewards (EpsGreedy_one_step env) [0..<nat n] s) = length [0..<nat n] \<and>
         list_all (\<lambda>R. length R = nbandits s) (learn_rewards (EpsGreedy_one_step env) [0..<nat n] s)"
    by (rule learn_loop_avg[OF l wf]) (rule EpsGreedy_one_step_Inr)
  with p i EpsGreedy_run_summary[OF run]
  show "\<exists>s. EpsGreedy_init env bandits arms e = Inr s \<and>
         avg_reward s' = map np_mean (learn_rewards (EpsGreedy_one_step env) [0..<nat n] s) \<and>
         list_all (\<lambda>R. length R = nbandits s') (learn_rewards (EpsGreedy_one_step env) [0..<nat n] s) \<and>
         length (avg_reward s') = nat n"
    by auto
next
  assume run: "UCB_run env bandits arms n = Inr u'"
  then obtain u where i: "UCB_init env bandits arms = Inr u"
    and l: "err_bind (initial_run env u) (\<lambda>s1. learn_loop (UCB_one_step env) [0..<nat n] s1) = Inr u'"
    by (auto simp add: UCB_run_def UCB_learn_def err_bind_Inr_iff)
  note p = init_props[OF i[unfolded UCB_init_def]]
  from p have wf: "wf u" and e: "avg_reward u = []" by simp_all
  have "\<exists>s1. initial_run env u = Inr s1 \<and>
           avg_reward u' = map np_mean (initial_rewards env [0..<nbandits u] u) @
                           map np_mean (learn_rewards (UCB_one_step env) [0..<nat n] s1) \<and>
           length (initial_rewards env [0..<nbandits u] u) = nbandits u \<and>
           list_all (\<lambda>R. length R = narms u) (initial_rewards env [0..<nbandits u] u) \<and>
           length (learn_rewards (UCB_one_step env) [0..<nat n] s1) = nat n \<and>
           list_all (\<lambda>R. length R = nbandits u) (learn_rewards (UCB_one_step env) [0..<nat n] s1)"
    by (rule warm_avg[OF l wf e]) (rule UCB_one_step_Inr)
  with p i UCB_run_summary[OF run]
  show "\<exists>u u1. UCB_init env bandits arms = Inr u \<and> initial_run env u = Inr u1 \<and>
         avg_reward u' = map np_mean (initial_rewards env [0..<nbandits u] u) @
                         map np_mean (learn_rewards (UCB_one_step env) [0..<nat n] u1) \<and>
         length (initial_rewards env [0..<nbandits u] u) = nbandits u' \<and>
         list_all (\<lambda>R. length R = narms u') (initial_rewards env [0..<nbandits u] u) \<and>
         list_all (\<lambda>R. length R = nbandits u') (learn_rewards (UCB_one_step env) [0..<nat n] u1) \<and>
         length (avg_reward u') = nbandits u' + nat n"
    by auto
next
  assume run: "Softmax_run env bandits arms t n = Inr v'"
  then obtain v where i: "Softmax_init env bandits arms t = Inr v"
    and l: "err_bind (initial_run env v) (\<lambda>s1. learn_loop (Softmax_one_step env) [0..<nat n] s1) = Inr v'"
    by (auto simp add: Softmax_run_def Softmax_learn_def err_bind_Inr_iff)
  note p = init_props[OF i[unfolded Softmax_init_def]]
  from p have wf: "wf v" and e: "avg_reward v = []" by simp_all
  have "\<exists>s1. initial_run env v = Inr s1 \<and>
           avg_reward v' = map np_mean (initial_rewards env [0..<nbandits v] v) @
                           map np_mean (learn_rewards (Softmax_one_step env) [0..<nat n] s1) \<and>
           length (initial_rewards env [0..<nbandits v] v) = nbandits v \<and>
           list_all (\<lambda>R. length R = narms v) (initial_rewards env [0..<nbandits v] v) \<and>
           length (learn_rewards (Softmax_one_step env) [0..<nat n] s1) = nat n \<and>
           list_all (\<lambda>R. length R = nbandits v) (learn_rewards (Softmax_one_step env) [0..<nat n] s1)"
    by (rule warm_avg[OF l wf e]) (rule Softmax_one_step_Inr)
  with p i Softmax_run_summary[OF run]
  show "\<exists>v v1. Softmax_init env bandits arms t = Inr v \<and> initial_run env v = Inr v1 \<and>
         avg_reward v' = map np_mean (initial_rewards env [0..<nbandits v] v) @
                         map np_mean (learn_rewards (Softmax_one_step env) [0..<nat n] v1) \<and>
         length (initial_rewards env [0..<nbandits v] v) = nbandits v' \<and>
         list_all (\<lambda>R. length R = narms v') (initial_rewards env [0..<nbandits v] v) \<and>
         list_all (\<lambda>R. length R = nbandits v') (learn_rewards (Softmax_one_step env) [0..<nat n] v1) \<and>
         length (avg_reward v') = nbandits v' + nat n"
    by auto
qed

theorem avg_reward_entries_witness:
  "EpsGreedy_run sour_rng 1 2 1 2 = Inr eps_sour \<and> length (avg_reward eps_sour) = nat 2 \<and>
   UCB_run sour_rng 1 2 1 = Inr ucb_sour \<and> length (avg_reward ucb_sour) = nbandits ucb_sour + nat 1 \<and>
   Softmax_run sour_rng 1 2 1 1 = Inr softmax_sour \<and>
   length (avg_reward softmax_sour) = nbandits softmax_sour + nat 1"
proof -
  have a: "length (avg_reward eps_sour) = nat 2"
    using avg_reward_entries[where env = sour_rng and bandits = 1 and arms = 2 and e = 1 and n = 2
        and s' = eps_sour, THEN conjunct1, rule_format, OF eps_sour_run]
    by blast
  have b: "length (avg_reward ucb_sour) = nbandits ucb_sour + nat 1"
    using avg_reward_entries[where env = sour_rng and bandits = 1 and arms = 2 and n = 1
        and u' = ucb_sour, THEN conjunct2, THEN conjunct1, rule_format, OF ucb_sour_run]
    by blast
  have c: "length (avg_reward softmax_sour) = nbandits softmax_sour + nat 1"
    using avg_reward_entries[where env = sour_rng and bandits = 1 and arms = 2 and n = 1
        and t = 1 and v' = softmax_sour, THEN conjunct2, THEN conjunct2, rule_format,
        OF softmax_sour_run]
    by blast
  from a b c eps_sour_run ucb_sour_run softmax_sour_run show ?thesis by simp
qed

end
